theory Spec2Isabelle
  imports Main "HOL-Library.Sublist" "HOL-Library.Char_ord" "HOL-Library.AList"
begin

section \<open>Python values, errors and strings\<close>

text \<open>
  The scene and file records of \<^verbatim>\<open>file_manager.py\<close> are JSON objects delivered by the
  catalog. A value is one of the JSON shapes; a dictionary is an association list read
  with \<open>map_of\<close>. A string is a list of characters, and a character is a code point
  below 256: the model covers text in Latin-1, with the character classes Python gives
  these code points.
\<close>

datatype pyval =
    PNone
  | PBool bool
  | PInt int
  | PStr string
  | PList "pyval list"
  | PDict "(string \<times> pyval) list"

datatype py_error = IndexError | KeyError | AttributeError | TypeError | OSError string | GQLError

text \<open>
  A computation either raises (\<open>Inl\<close>) or returns (\<open>Inr\<close>); one that may also run
  forever has the type \<open>'a comp\<close>, where \<open>None\<close> stands for not returning.
\<close>

type_synonym 'a comp = "(py_error + 'a) option"

definition ret :: "'a \<Rightarrow> 'a comp" where
  "ret x = Some (Inr x)"

definition raise :: "py_error \<Rightarrow> 'a comp" where
  "raise e = Some (Inl e)"

definition bindc :: "'a comp \<Rightarrow> ('a \<Rightarrow> 'b comp) \<Rightarrow> 'b comp" where
  "bindc m f = (case m of None \<Rightarrow> None | Some (Inl e) \<Rightarrow> Some (Inl e) | Some (Inr x) \<Rightarrow> f x)"

definition lift :: "py_error + 'a \<Rightarrow> 'a comp" where
  "lift r = Some r"

text \<open>Truthiness, as \<^verbatim>\<open>if value\<close> and \<^verbatim>\<open>not value\<close> test it.\<close>

fun truthy :: "pyval \<Rightarrow> bool" where
  "truthy PNone = False"
| "truthy (PBool b) = b"
| "truthy (PInt i) = (i \<noteq> 0)"
| "truthy (PStr s) = (s \<noteq> [])"
| "truthy (PList xs) = (xs \<noteq> [])"
| "truthy (PDict d) = (d \<noteq> [])"

text \<open>\<^verbatim>\<open>d.get(key, default)\<close>: only a dictionary has the method.\<close>

fun py_get :: "pyval \<Rightarrow> string \<Rightarrow> pyval \<Rightarrow> py_error + pyval" where
  "py_get (PDict d) k dflt = Inr (case map_of d k of None \<Rightarrow> dflt | Some v \<Rightarrow> v)"
| "py_get _ k dflt = Inl AttributeError"

text \<open>\<^verbatim>\<open>d[key]\<close> on a record.\<close>

fun py_item :: "pyval \<Rightarrow> string \<Rightarrow> py_error + pyval" where
  "py_item (PDict d) k = (case map_of d k of None \<Rightarrow> Inl KeyError | Some v \<Rightarrow> Inr v)"
| "py_item _ k = Inl TypeError"

subsection \<open>Substring test, replace, split, join\<close>

fun contains :: "string \<Rightarrow> string \<Rightarrow> bool" where
  "contains [] sub = (sub = [])"
| "contains (c # cs) sub = (prefix sub (c # cs) \<or> contains cs sub)"

text \<open>
  \<^verbatim>\<open>s.replace(old, new)\<close> replaces the occurrences of \<open>old\<close> from left to right,
  without overlap.
\<close>

fun replace_ne :: "string \<Rightarrow> string \<Rightarrow> string \<Rightarrow> string" where
  "replace_ne old new [] = []"
| "replace_ne old new (c # cs) =
     (if old \<noteq> [] \<and> prefix old (c # cs)
      then new @ replace_ne old new (drop (length old - 1) cs)
      else c # replace_ne old new cs)"

definition py_replace :: "string \<Rightarrow> string \<Rightarrow> string \<Rightarrow> string" where
  "py_replace s old new =
     (if old = [] then new @ concat (map (\<lambda>c. c # new) s) else replace_ne old new s)"

text \<open>
  \<^verbatim>\<open>s.split(sep)\<close> for a one-character separator: the list is never empty.
  \<open>split_acc\<close> carries the segment being read.
\<close>

fun split_acc :: "char \<Rightarrow> string \<Rightarrow> string \<Rightarrow> string list" where
  "split_acc sep acc [] = [acc]"
| "split_acc sep acc (c # cs) =
     (if c = sep then acc # split_acc sep [] cs else split_acc sep (acc @ [c]) cs)"

definition py_split :: "string \<Rightarrow> char \<Rightarrow> string list" where
  "py_split s sep = split_acc sep [] s"

fun join :: "string \<Rightarrow> string list \<Rightarrow> string" where
  "join sep [] = []"
| "join sep [x] = x"
| "join sep (x # y # ys) = x @ sep @ join sep (y # ys)"

text \<open>\<^verbatim>\<open>xs[i]\<close> for a non-negative index.\<close>

definition py_index :: "'a list \<Rightarrow> nat \<Rightarrow> py_error + 'a" where
  "py_index xs i = (if i < length xs then Inr (xs ! i) else Inl IndexError)"

section \<open>Regular expressions\<close>

text \<open>
  The three patterns of the source are sequences of one-character classes, each taken
  once or under a greedy \<^verbatim>\<open>*\<close> or \<^verbatim>\<open>+\<close>. \<open>rmatch\<close> is the backtracking matcher of
  \<^verbatim>\<open>re\<close> anchored at the start of the string: a starred class first takes one more
  character and only gives it back when the rest of the pattern fails. It returns the
  length of the match.
\<close>

datatype cclass = Lit char | AnyChar | WordChar | Space | OneOf "char list"

datatype quant = Once | Star | Plus

type_synonym regex = "(cclass \<times> quant) list"

text \<open>
  \<^verbatim>\<open>\w\<close> is the underscore and what \<^verbatim>\<open>str.isalnum\<close> accepts, \<^verbatim>\<open>\s\<close> what
  \<^verbatim>\<open>str.isspace\<close> accepts; below 256 these are the following code points.
\<close>

definition is_word_char :: "char \<Rightarrow> bool" where
  "is_word_char c =
     ((CHR ''a'' \<le> c \<and> c \<le> CHR ''z'') \<or> (CHR ''A'' \<le> c \<and> c \<le> CHR ''Z'')
      \<or> (CHR ''0'' \<le> c \<and> c \<le> CHR ''9'') \<or> c = CHR ''_''
      \<or> c = CHR 0xAA \<or> c = CHR 0xB2 \<or> c = CHR 0xB3 \<or> c = CHR 0xB5
      \<or> c = CHR 0xB9 \<or> c = CHR 0xBA \<or> (CHR 0xBC \<le> c \<and> c \<le> CHR 0xBE)
      \<or> (CHR 0xC0 \<le> c \<and> c \<le> CHR 0xD6) \<or> (CHR 0xD8 \<le> c \<and> c \<le> CHR 0xF6)
      \<or> CHR 0xF8 \<le> c)"

definition is_space_char :: "char \<Rightarrow> bool" where
  "is_space_char c =
     ((CHR 0x09 \<le> c \<and> c \<le> CHR 0x0D) \<or> (CHR 0x1C \<le> c \<and> c \<le> CHR 0x20)
      \<or> c = CHR 0x85 \<or> c = CHR 0xA0)"

fun cmatch :: "cclass \<Rightarrow> char \<Rightarrow> bool" where
  "cmatch (Lit a) c = (c = a)"
| "cmatch AnyChar c = (c \<noteq> CHR 0x0A)"
| "cmatch WordChar c = is_word_char c"
| "cmatch Space c = is_space_char c"
| "cmatch (OneOf cs) c = (c \<in> set cs)"

fun rmatch :: "regex \<Rightarrow> string \<Rightarrow> nat option" where
  "rmatch [] s = Some 0"
| "rmatch ((c, Once) # r) [] = None"
| "rmatch ((c, Once) # r) (x # xs) =
     (if cmatch c x then map_option Suc (rmatch r xs) else None)"
| "rmatch ((c, Star) # r) [] = rmatch r []"
| "rmatch ((c, Star) # r) (x # xs) =
     (if cmatch c x
      then (case rmatch ((c, Star) # r) xs of
              Some n \<Rightarrow> Some (Suc n)
            | None \<Rightarrow> rmatch r (x # xs))
      else rmatch r (x # xs))"
| "rmatch ((c, Plus) # r) [] = None"
| "rmatch ((c, Plus) # r) (x # xs) =
     (if cmatch c x then map_option Suc (rmatch ((c, Star) # r) xs) else None)"

text \<open>
  \<^verbatim>\<open>re.sub(pattern, repl, s)\<close> with a constant replacement: the leftmost match is
  replaced and the scan goes on behind it.
\<close>

fun re_sub :: "regex \<Rightarrow> string \<Rightarrow> string \<Rightarrow> string" where
  "re_sub r repl [] = (case rmatch r [] of Some n \<Rightarrow> repl | None \<Rightarrow> [])"
| "re_sub r repl (x # xs) =
     (case rmatch r (x # xs) of
        None \<Rightarrow> x # re_sub r repl xs
      | Some 0 \<Rightarrow> repl @ x # re_sub r repl xs
      | Some (Suc n) \<Rightarrow> repl @ re_sub r repl (drop n xs))"

section \<open>The template formatter\<close>

text \<open>The pattern \<^verbatim>\<open>\{.*\$\w+\$.*\}\<close> of \<^verbatim>\<open>clean_optional_from_format\<close>.\<close>

definition optional_section :: regex where
  "optional_section =
     [(Lit (CHR ''{''), Once), (AnyChar, Star), (Lit (CHR ''$''), Once), (WordChar, Plus),
      (Lit (CHR ''$''), Once), (AnyChar, Star), (Lit (CHR ''}''), Once)]"

definition clean_optional_from_format :: "string \<Rightarrow> string" where
  "clean_optional_from_format formatted_string =
     (let erased = re_sub optional_section [] formatted_string
      in py_replace (py_replace erased ''{'' []) ''}'' [])"


subsection \<open>Turning a value into text\<close>

text \<open>
  \<^verbatim>\<open>str(value)\<close>: a string is itself, an integer its decimal digits, anything else its
  \<^verbatim>\<open>repr\<close>. The \<^verbatim>\<open>repr\<close> of a string picks the quote and escapes the quote, the
  backslash and the characters that are not printable.
\<close>

fun string_of_nat :: "nat \<Rightarrow> string" where
  "string_of_nat n =
     (if n < 10 then [''0123456789'' ! n]
      else string_of_nat (n div 10) @ [''0123456789'' ! (n mod 10)])"

declare string_of_nat.simps [simp del]

definition string_of_int :: "int \<Rightarrow> string" where
  "string_of_int i = (if i < 0 then CHR ''-'' # string_of_nat (nat (- i)) else string_of_nat (nat i))"

definition hex2 :: "nat \<Rightarrow> string" where
  "hex2 n = [''0123456789abcdef'' ! (n div 16 mod 16), ''0123456789abcdef'' ! (n mod 16)]"

definition repr_char :: "char \<Rightarrow> char \<Rightarrow> string" where
  "repr_char q c =
     (if c = q \<or> c = CHR 0x5C then [CHR 0x5C, c]
      else if c = CHR 0x0A then [CHR 0x5C, CHR ''n'']
      else if c = CHR 0x0D then [CHR 0x5C, CHR ''r'']
      else if c = CHR 0x09 then [CHR 0x5C, CHR ''t'']
      else if c < CHR 0x20 \<or> (CHR 0x7F \<le> c \<and> c \<le> CHR 0xA0) \<or> c = CHR 0xAD
      then CHR 0x5C # CHR ''x'' # hex2 (of_char c)
      else [c])"

definition repr_str :: "string \<Rightarrow> string" where
  "repr_str s =
     (let q = (if CHR 0x27 \<in> set s \<and> CHR 0x22 \<notin> set s then CHR 0x22 else CHR 0x27)
      in q # concat (map (repr_char q) s) @ [q])"

fun py_repr :: "pyval \<Rightarrow> string" where
  "py_repr PNone = ''None''"
| "py_repr (PBool b) = (if b then ''True'' else ''False'')"
| "py_repr (PInt i) = string_of_int i"
| "py_repr (PStr s) = repr_str s"
| "py_repr (PList xs) = ''['' @ join '', '' (map py_repr xs) @ '']''"
| "py_repr (PDict d) =
     ''{'' @ join '', '' (map (\<lambda>kv. repr_str (fst kv) @ '': '' @ py_repr (snd kv)) d) @ ''}''"

fun py_str :: "pyval \<Rightarrow> string" where
  "py_str (PStr s) = s"
| "py_str v = py_repr v"

section \<open>Template variables\<close>

text \<open>
  \<open>stash\<close> is the catalog's lookup \<^verbatim>\<open>find_studio\<close>: an external call, which
  may raise. A resolver takes the catalog and a record, as the lambdas of
  \<^verbatim>\<open>FILE_VARIABLES\<close> and \<^verbatim>\<open>SCENE_VARIABLES\<close> do.
\<close>

type_synonym stash = "pyval \<Rightarrow> py_error + pyval"

type_synonym resolver = "stash \<Rightarrow> pyval \<Rightarrow> pyval comp"

text \<open>\<^verbatim>\<open>s.split(sep)\<close> exists on strings only.\<close>

fun split_val :: "pyval \<Rightarrow> char \<Rightarrow> py_error + string list" where
  "split_val (PStr s) sep = Inr (py_split s sep)"
| "split_val _ sep = Inl AttributeError"

text \<open>Iterating a value in a comprehension.\<close>

fun py_iter :: "pyval \<Rightarrow> py_error + pyval list" where
  "py_iter (PList xs) = Inr xs"
| "py_iter (PStr s) = Inr (map (\<lambda>c. PStr [c]) s)"
| "py_iter (PDict d) = Inr (map (\<lambda>kv. PStr (fst kv)) d)"
| "py_iter _ = Inl TypeError"

text \<open>\<^verbatim>\<open>sep.join(xs)\<close> wants strings.\<close>

fun str_items :: "pyval list \<Rightarrow> py_error + string list" where
  "str_items [] = Inr []"
| "str_items (PStr s # vs) = (case str_items vs of Inl e \<Rightarrow> Inl e | Inr ss \<Rightarrow> Inr (s # ss))"
| "str_items (_ # vs) = Inl TypeError"

text \<open>
  The loop of \<^verbatim>\<open>get_parent_studio_chain\<close>: one lookup for each parent, no bound on
  their number.
\<close>

partial_function (option) parent_chain_loop ::
  "stash \<Rightarrow> pyval \<Rightarrow> pyval list \<Rightarrow> (py_error + pyval list) option" where
  "parent_chain_loop find_studio current_studio parent_chain =
     (case py_get current_studio ''parent_studio'' PNone of
        Inl e \<Rightarrow> Some (Inl e)
      | Inr parent \<Rightarrow>
          if truthy parent then
            (case find_studio parent of
               Inl e \<Rightarrow> Some (Inl e)
             | Inr next_studio \<Rightarrow>
                 (case py_get next_studio ''name'' PNone of
                    Inl e \<Rightarrow> Some (Inl e)
                  | Inr name \<Rightarrow> parent_chain_loop find_studio next_studio (parent_chain @ [name])))
          else Some (Inr parent_chain))"

declare parent_chain_loop.simps [code]

definition get_parent_studio_chain :: resolver where
  "get_parent_studio_chain find_studio scene =
     bindc (lift (py_get scene ''studio'' (PDict []))) (\<lambda>current_studio.
     bindc (lift (py_get current_studio ''name'' (PStr []))) (\<lambda>name.
     bindc (parent_chain_loop find_studio current_studio [name]) (\<lambda>parent_chain.
     bindc (lift (str_items (rev parent_chain))) (\<lambda>names.
     ret (PStr (join ''/'' names))))))"

definition key_getter :: "string \<Rightarrow> resolver" where
  "key_getter key = (\<lambda>_ data. lift (py_get data key (PStr [])))"

definition ext_resolver :: resolver where
  "ext_resolver = (\<lambda>_ file.
     bindc (lift (py_get file ''basename'' (PStr []))) (\<lambda>basename.
     bindc (lift (split_val basename (CHR ''.''))) (\<lambda>parts.
     ret (PStr (last parts)))))"

definition FILE_VARIABLES :: "(string \<times> resolver) list" where
  "FILE_VARIABLES =
     [(''audio_codec'', key_getter ''audio_codec''),
      (''ext'', ext_resolver),
      (''format'', key_getter ''format''),
      (''height'', key_getter ''height''),
      (''index'', key_getter ''index''),
      (''video_codec'', key_getter ''video_codec''),
      (''width'', key_getter ''width'')]"

text \<open>
  \<^verbatim>\<open>scene.get("date", "").split("-")[i] if scene.get("date") else ""\<close>, for \<open>month\<close>
  (\<open>i = 1\<close>) and \<open>year\<close> (\<open>i = 0\<close>).
\<close>

definition date_part :: "nat \<Rightarrow> resolver" where
  "date_part i = (\<lambda>_ scene.
     bindc (lift (py_get scene ''date'' PNone)) (\<lambda>test.
     if truthy test then
       bindc (lift (py_get scene ''date'' (PStr []))) (\<lambda>date.
       bindc (lift (split_val date (CHR ''-''))) (\<lambda>parts.
       bindc (lift (py_index parts i)) (\<lambda>part.
       ret (PStr part))))
     else ret (PStr [])))"

definition studio_name_resolver :: resolver where
  "studio_name_resolver = (\<lambda>_ scene.
     bindc (lift (py_get scene ''studio'' (PDict []))) (\<lambda>studio.
     lift (py_get studio ''name'' (PStr []))))"

fun endpoint_list :: "pyval list \<Rightarrow> py_error + pyval list" where
  "endpoint_list [] = Inr []"
| "endpoint_list (sid # sids) =
     (case py_get sid ''endpoint'' (PStr []) of
        Inl e \<Rightarrow> Inl e
      | Inr ep \<Rightarrow> (case endpoint_list sids of Inl e \<Rightarrow> Inl e | Inr eps \<Rightarrow> Inr (ep # eps)))"

definition endpoints_resolver :: resolver where
  "endpoints_resolver = (\<lambda>_ scene.
     bindc (lift (py_get scene ''studio'' (PDict []))) (\<lambda>studio.
     bindc (lift (py_get studio ''stash_ids'' (PList []))) (\<lambda>stash_ids.
     bindc (lift (py_iter stash_ids)) (\<lambda>sids.
     bindc (lift (endpoint_list sids)) (\<lambda>eps.
     ret (PList eps))))))"

definition SCENE_VARIABLES :: "(string \<times> resolver) list" where
  "SCENE_VARIABLES =
     [(''scene_id'', key_getter ''id''),
      (''title'', key_getter ''title''),
      (''date'', key_getter ''date''),
      (''director'', key_getter ''director''),
      (''month'', date_part 1),
      (''parent_studio_chain'', get_parent_studio_chain),
      (''studio_code'', key_getter ''code''),
      (''studio_name'', studio_name_resolver),
      (''year'', date_part 0),
      (''endpoints'', endpoints_resolver)]"

definition placeholder :: "string \<Rightarrow> string" where
  "placeholder variable = CHR ''$'' # variable @ ''$''"

definition find_variables :: "string \<Rightarrow> string list" where
  "find_variables format_template =
     filter (\<lambda>variable. contains format_template (placeholder variable)) (map fst FILE_VARIABLES)
     @ filter (\<lambda>variable. contains format_template (placeholder variable)) (map fst SCENE_VARIABLES)"

text \<open>
  The value of one variable in \<^verbatim>\<open>apply_format\<close>: a file variable wins. The names come
  from \<open>find_variables\<close>, so the last branch is never taken.
\<close>

definition resolve :: "stash \<Rightarrow> pyval \<Rightarrow> pyval \<Rightarrow> string \<Rightarrow> pyval comp" where
  "resolve find_studio scene_data file_data variable =
     (case map_of FILE_VARIABLES variable of
        Some f \<Rightarrow> f find_studio file_data
      | None \<Rightarrow>
          (case map_of SCENE_VARIABLES variable of
             Some f \<Rightarrow> f find_studio scene_data
           | None \<Rightarrow> raise KeyError))"

fun substitute :: "stash \<Rightarrow> pyval \<Rightarrow> pyval \<Rightarrow> string list \<Rightarrow> string \<Rightarrow> string comp" where
  "substitute find_studio scene_data file_data [] formatted_template = ret formatted_template"
| "substitute find_studio scene_data file_data (variable # variables) formatted_template =
     bindc (resolve find_studio scene_data file_data variable) (\<lambda>value.
       if \<not> truthy value
       then substitute find_studio scene_data file_data variables formatted_template
       else substitute find_studio scene_data file_data variables
              (py_replace formatted_template (placeholder variable) (py_str value)))"

definition apply_format :: "string \<Rightarrow> stash \<Rightarrow> pyval \<Rightarrow> pyval \<Rightarrow> string comp" where
  "apply_format format_template find_studio scene_data file_data =
     bindc (substitute find_studio scene_data file_data (find_variables format_template)
              format_template)
       (\<lambda>formatted_template. ret (clean_optional_from_format formatted_template))"


section \<open>Paths\<close>

text \<open>
  A \<^verbatim>\<open>pathlib\<close> path on a POSIX system: its root and its components. The root is
  \<open>0\<close> for a relative path, \<open>1\<close> for \<^verbatim>\<open>/\<close> and \<open>2\<close> for the root of exactly two
  leading slashes, which \<^verbatim>\<open>pathlib\<close> keeps apart. Parsing drops empty components and
  \<^verbatim>\<open>.\<close>, and keeps \<^verbatim>\<open>..\<close>; two paths are equal when root and components are.
\<close>

datatype path = Path (root: nat) (parts: "string list")

definition root_of :: "string \<Rightarrow> nat" where
  "root_of s =
     (let n = length (takeWhile (\<lambda>c. c = CHR ''/'') s)
      in if n = 0 then 0 else if n = 2 then 2 else 1)"

definition parse_path :: "string \<Rightarrow> path" where
  "parse_path s =
     Path (root_of s) (filter (\<lambda>p. p \<noteq> [] \<and> p \<noteq> ''.'') (py_split s (CHR ''/'')))"

text \<open>\<^verbatim>\<open>pathlib.Path(value)\<close> accepts a string.\<close>

fun path_of_val :: "pyval \<Rightarrow> py_error + path" where
  "path_of_val (PStr s) = Inr (parse_path s)"
| "path_of_val _ = Inl TypeError"

text \<open>\<^verbatim>\<open>p.absolute()\<close>, in the working directory \<open>cwd_path\<close>.\<close>

definition absolute :: "path \<Rightarrow> path \<Rightarrow> path" where
  "absolute cwd_path p =
     (if root p \<noteq> 0 then p else Path (root cwd_path) (parts cwd_path @ parts p))"

definition parent :: "path \<Rightarrow> path" where
  "parent p = Path (root p) (butlast (parts p))"

text \<open>\<^verbatim>\<open>p / s\<close>: an absolute right-hand side replaces the left one.\<close>

definition joinpath :: "path \<Rightarrow> string \<Rightarrow> path" where
  "joinpath p s =
     (if prefix ''/'' s then parse_path s else Path (root p) (parts p @ parts (parse_path s)))"

definition str_of_path :: "path \<Rightarrow> string" where
  "str_of_path p =
     (if root p \<noteq> 0 then replicate (root p) (CHR ''/'') @ join ''/'' (parts p)
      else if parts p = [] then ''.'' else join ''/'' (parts p))"

definition path_name :: "path \<Rightarrow> string" where
  "path_name p = (if parts p = [] then [] else last (parts p))"

text \<open>
  \<^verbatim>\<open>name.rfind(".")\<close>, and the split of a name into \<^verbatim>\<open>stem\<close> and \<^verbatim>\<open>suffix\<close>: the
  last dot counts when it is neither the first nor the last character.
\<close>

definition rfind_dot :: "string \<Rightarrow> nat option" where
  "rfind_dot name =
     (if CHR ''.'' \<in> set name
      then Some (length name - 1 - length (takeWhile (\<lambda>c. c \<noteq> CHR ''.'') (rev name)))
      else None)"

definition suffix_of :: "path \<Rightarrow> string" where
  "suffix_of p =
     (case rfind_dot (path_name p) of
        Some i \<Rightarrow> if 0 < i \<and> i + 1 < length (path_name p) then drop i (path_name p) else []
      | None \<Rightarrow> [])"

definition stem :: "path \<Rightarrow> string" where
  "stem p =
     (case rfind_dot (path_name p) of
        Some i \<Rightarrow> if 0 < i \<and> i + 1 < length (path_name p) then take i (path_name p)
                  else path_name p
      | None \<Rightarrow> path_name p)"

section \<open>Configuration, collaborators and state\<close>

text \<open>
  The configuration object is consumed, not defined, by \<^verbatim>\<open>file_manager.py\<close>; the model
  takes its attributes as a record (\<open>cfg_rename_related_files\<close> and \<open>cfg_dry_run\<close> are
  the attributes \<^verbatim>\<open>rename_related_files\<close> and \<^verbatim>\<open>dry_run\<close>).
\<close>

record config =
  default_directory_path_format :: string
  second_directory_path_format :: string
  default_graphql_endpoint :: string
  default_file_name_format :: string
  duplicate_file_suffix :: string
  allow_unsafe_characters :: bool
  remove_extra_spaces_from_file_name :: bool
  remove_and_replace_as_in_whisparr :: bool
  cfg_rename_related_files :: bool
  cfg_dry_run :: bool

text \<open>
  The collaborators: the catalog (its studio lookup and its move mutation) and the file
  system, over a state \<open>'w\<close> of both. Reading does not change the state; creating a
  directory, renaming and the mutation return the new state or raise.
\<close>

record 'w env =
  cwd :: path
  find_studio :: stash
  os_exists :: "'w \<Rightarrow> path \<Rightarrow> bool"
  os_glob :: "'w \<Rightarrow> path \<Rightarrow> string \<Rightarrow> path list"
  os_mkdir :: "'w \<Rightarrow> path \<Rightarrow> py_error + 'w"
  os_rename :: "'w \<Rightarrow> path \<Rightarrow> path \<Rightarrow> py_error + 'w"
  move_files :: "'w \<Rightarrow> pyval \<Rightarrow> path \<Rightarrow> pyval \<Rightarrow> py_error + pyval \<times> 'w"

datatype level = Debug | Info | Warning | Error

text \<open>Every call that leaves the program is recorded, in order.\<close>

datatype event =
    Log level string
  | Exists path
  | Glob path string
  | Mkdir path
  | Rename path path
  | MoveFiles pyval path pyval

text \<open>The state of a \<^verbatim>\<open>StashFile\<close> and of the world around it.\<close>

record 'w state =
  world :: 'w
  events :: "event list"
  duplicate_index :: nat


definition emit :: "event \<Rightarrow> 'w state \<Rightarrow> 'w state" where
  "emit e s = s\<lparr>events := events s @ [e]\<rparr>"

section \<open>The path builder\<close>

definition get_old_file_path :: "'w env \<Rightarrow> pyval \<Rightarrow> py_error + path" where
  "get_old_file_path env file_data =
     (case py_item file_data ''path'' of
        Inl e \<Rightarrow> Inl e
      | Inr v \<Rightarrow> (case path_of_val v of Inl e \<Rightarrow> Inl e | Inr p \<Rightarrow> Inr (absolute (cwd env) p)))"

definition whisparr_replacements :: "(char \<times> string) list" where
  "whisparr_replacements =
     [(CHR '':'', []), (CHR ''<'', []), (CHR ''>'', []), (CHR ''?'', ''!''), (CHR ''*'', ''-''),
      (CHR ''|'', []), (CHR 0x22, [])]"

definition whisparr_sub :: "string \<Rightarrow> string" where
  "whisparr_sub s =
     concat (map (\<lambda>c. case map_of whisparr_replacements c of Some r \<Rightarrow> r | None \<Rightarrow> [c]) s)"

fun str_in :: "string \<Rightarrow> pyval \<Rightarrow> bool" where
  "str_in x (PList vs) = (PStr x \<in> set vs)"
| "str_in x _ = False"

definition get_new_file_folder :: "config \<Rightarrow> 'w env \<Rightarrow> pyval \<Rightarrow> pyval \<Rightarrow> path comp" where
  "get_new_file_folder config env scene_data file_data =
     bindc
       (if default_directory_path_format config \<noteq> [] then
          bindc (endpoints_resolver (find_studio env) scene_data) (\<lambda>endpoints.
          bindc (apply_format
                   (if str_in (default_graphql_endpoint config) endpoints
                    then default_directory_path_format config
                    else second_directory_path_format config)
                   (find_studio env) scene_data file_data) (\<lambda>directory_path.
          ret (absolute (cwd env) (parse_path directory_path))))
        else
          bindc (lift (py_item file_data ''path'')) (\<lambda>v.
          bindc (lift (path_of_val v)) (\<lambda>p.
          ret (absolute (cwd env) (parent p)))))
       (\<lambda>directory_path.
          if remove_and_replace_as_in_whisparr config
          then ret (parse_path (whisparr_sub (str_of_path directory_path)))
          else ret directory_path)"

text \<open>\<^verbatim>\<open>{**file_data, "index": i}\<close>.\<close>

fun with_index :: "pyval \<Rightarrow> nat \<Rightarrow> py_error + pyval" where
  "with_index (PDict d) i = Inr (PDict (AList.update ''index'' (PInt (int i)) d))"
| "with_index _ i = Inl TypeError"

text \<open>\<^verbatim>\<open>s.rsplit(".", 1)\<close>: split at the last dot, if there is one.\<close>

definition rsplit1 :: "string \<Rightarrow> string list" where
  "rsplit1 s =
     (if CHR ''.'' \<in> set s
      then [rev (tl (dropWhile (\<lambda>c. c \<noteq> CHR ''.'') (rev s))),
            rev (takeWhile (\<lambda>c. c \<noteq> CHR ''.'') (rev s))]
      else [s])"

text \<open>The patterns \<^verbatim>\<open>[<>:"/\\|?*]\<close> and \<^verbatim>\<open>\s+\<close>.\<close>

definition unsafe_characters :: "char list" where
  "unsafe_characters = ''<>:'' @ [CHR 0x22] @ ''/'' @ [CHR 0x5C] @ ''|?*''"

definition unsafe_pattern :: regex where
  "unsafe_pattern = [(OneOf unsafe_characters, Once)]"

definition spaces_pattern :: regex where
  "spaces_pattern = [(Space, Plus)]"

text \<open>
  Lines 147 to 155 of \<^verbatim>\<open>get_new_file_name\<close>: the formatted name, with the duplicate
  suffix spliced in when the index is not 0.
\<close>

definition indexed_file_name :: "config \<Rightarrow> 'w env \<Rightarrow> pyval \<Rightarrow> pyval \<Rightarrow> nat \<Rightarrow> string comp" where
  "indexed_file_name config env scene_data file_data index =
     bindc (lift (with_index file_data index)) (\<lambda>file_data'.
     bindc (apply_format (default_file_name_format config) (find_studio env) scene_data file_data')
       (\<lambda>file_name.
        if index \<noteq> 0 then
          bindc (apply_format (duplicate_file_suffix config) (find_studio env) scene_data
                   file_data') (\<lambda>duplicate_suffix.
          bindc (lift (py_index (rsplit1 file_name) 0)) (\<lambda>base_name.
          bindc (lift (py_index (rsplit1 file_name) 1)) (\<lambda>extension.
          ret (base_name @ duplicate_suffix @ ''.'' @ extension))))
        else ret file_name))"

text \<open>Lines 157 to 161: the two optional clean-ups of the name.\<close>

definition sanitize_file_name :: "config \<Rightarrow> string \<Rightarrow> string" where
  "sanitize_file_name config file_name =
     (let file_name1 = (if \<not> allow_unsafe_characters config
                        then re_sub unsafe_pattern [] file_name else file_name)
      in if remove_extra_spaces_from_file_name config
         then re_sub spaces_pattern '' '' file_name1 else file_name1)"

definition get_new_file_name :: "config \<Rightarrow> 'w env \<Rightarrow> pyval \<Rightarrow> pyval \<Rightarrow> nat \<Rightarrow> pyval comp" where
  "get_new_file_name config env scene_data file_data index =
     (if default_file_name_format config = [] then lift (py_item file_data ''basename'')
      else
        bindc (indexed_file_name config env scene_data file_data index) (\<lambda>file_name.
        ret (PStr (sanitize_file_name config file_name))))"

text \<open>\<^verbatim>\<open>folder / name\<close> wants a string on the right.\<close>

definition get_new_file_path :: "config \<Rightarrow> 'w env \<Rightarrow> pyval \<Rightarrow> pyval \<Rightarrow> nat \<Rightarrow> path comp" where
  "get_new_file_path config env scene_data file_data index =
     bindc (get_new_file_folder config env scene_data file_data) (\<lambda>folder.
     bindc (get_new_file_name config env scene_data file_data index) (\<lambda>name.
     case name of PStr n \<Rightarrow> ret (joinpath folder n) | _ \<Rightarrow> raise TypeError))"


section \<open>Renaming\<close>

definition logm :: "level \<Rightarrow> string \<Rightarrow> 'w state \<Rightarrow> 'w state" where
  "logm lvl msg s = emit (Log lvl msg) s"

text \<open>
  One pass of the loop of \<^verbatim>\<open>rename_related_files\<close>, for the sibling \<open>related_file\<close>. The
  result is the state reached and the exception that leaves the loop, if there is one:
  only an \<^verbatim>\<open>OSError\<close> of the rename itself is caught.
\<close>

definition related_step ::
  "'w env \<Rightarrow> bool \<Rightarrow> path \<Rightarrow> string \<Rightarrow> path \<Rightarrow> 'w state \<Rightarrow> 'w state \<times> py_error option" where
  "related_step env dry new_directory new_stem related_file s =
     (let target_path = joinpath new_directory (new_stem @ suffix_of related_file) in
      if related_file = target_path then (s, None)
      else
        let s1 = emit (Exists target_path) s in
        if os_exists env (world s) target_path then
          (logm Warning (''Related file already exists at '' @ str_of_path target_path
             @ '', skipping rename for '' @ str_of_path related_file) s1, None)
        else
          let s2 = logm Info (''Renaming related file from '' @ str_of_path related_file
                     @ '' to '' @ str_of_path target_path) s1 in
          if dry then (s2, None)
          else
            let s3 = emit (Mkdir (parent target_path)) s2 in
            (case os_mkdir env (world s3) (parent target_path) of
               Inl e \<Rightarrow> (s3, Some e)
             | Inr w1 \<Rightarrow>
                 let s4 = emit (Rename related_file target_path) (s3\<lparr>world := w1\<rparr>) in
                 (case os_rename env w1 related_file target_path of
                    Inr w2 \<Rightarrow> (s4\<lparr>world := w2\<rparr>, None)
                  | Inl (OSError msg) \<Rightarrow>
                      (logm Error (''Failed to rename related file from ''
                         @ str_of_path related_file @ '' to '' @ str_of_path target_path
                         @ '': '' @ msg) s4, None)
                  | Inl e \<Rightarrow> (s4, Some e))))"

text \<open>The loop: the next sibling is taken unless an exception left the pass.\<close>

fun related_loop ::
  "'w env \<Rightarrow> bool \<Rightarrow> path \<Rightarrow> string \<Rightarrow> path list \<Rightarrow> 'w state \<Rightarrow> 'w state \<times> py_error option" where
  "related_loop env dry new_directory new_stem [] s = (s, None)"
| "related_loop env dry new_directory new_stem (related_file # rest) s =
     (case related_step env dry new_directory new_stem related_file s of
        (s', None) \<Rightarrow> related_loop env dry new_directory new_stem rest s'
      | (s', Some e) \<Rightarrow> (s', Some e))"

definition rename_related_files ::
  "config \<Rightarrow> 'w env \<Rightarrow> path \<Rightarrow> path \<Rightarrow> bool \<Rightarrow> 'w state \<Rightarrow> 'w state \<times> py_error option" where
  "rename_related_files config env old_path new_path dry s =
     (if \<not> cfg_rename_related_files config then (s, None)
      else
        let old_directory = parent old_path;
            new_directory = parent new_path;
            pattern = stem old_path @ ''.*'';
            related_files = filter (\<lambda>p. p \<noteq> old_path) (os_glob env (world s) old_directory pattern);
            s1 = emit (Glob old_directory pattern) s
        in if related_files = [] then (s1, None)
           else related_loop env dry new_directory (stem new_path) related_files s1)"

text \<open>
  The collision loop of \<^verbatim>\<open>rename_file\<close>, entered with the first candidate. It has no
  bound. It ends with an exception, with \<open>Inr None\<close> when a candidate equals the old
  path (the method returns), or with \<open>Inr (Some p)\<close> for the free candidate \<open>p\<close>.
\<close>

partial_function (option) collision_loop ::
  "config \<Rightarrow> 'w env \<Rightarrow> pyval \<Rightarrow> pyval \<Rightarrow> path \<Rightarrow> path \<Rightarrow> 'w state
     \<Rightarrow> ('w state \<times> (py_error + path option)) option" where
  "collision_loop config env scene_data file_data old_path new_path s =
     (let s1 = emit (Exists new_path) s in
      if os_exists env (world s) new_path then
        let s2 = s1\<lparr>duplicate_index := duplicate_index s1 + 1\<rparr>;
            s3 = logm Warning (''File already exists at '' @ str_of_path new_path
                   @ '', adding duplicate suffix: '' @ string_of_nat (duplicate_index s2)) s2
        in (case get_new_file_path config env scene_data file_data (duplicate_index s3) of
              None \<Rightarrow> None
            | Some (Inl e) \<Rightarrow> Some (s3, Inl e)
            | Some (Inr new_path') \<Rightarrow>
                if old_path = new_path'
                then Some (logm Info
                  ''File paths are the same after adding duplicate suffix, no renaming needed.''
                  s3, Inr None)
                else collision_loop config env scene_data file_data old_path new_path' s3)
      else Some (s1, Inr (Some new_path)))"

declare collision_loop.simps [code]

text \<open>Lines 227 to 244: the dry run, or the move and the siblings.\<close>

definition perform_rename ::
  "config \<Rightarrow> 'w env \<Rightarrow> pyval \<Rightarrow> pyval \<Rightarrow> path \<Rightarrow> path \<Rightarrow> 'w state
     \<Rightarrow> ('w state \<times> py_error option) option" where
  "perform_rename config env scene_data file_data old_path new_path s =
     (let s1 = logm Info (''Renaming file from '' @ str_of_path old_path @ '' to ''
                 @ str_of_path new_path) s in
      if cfg_dry_run config then
        Some (rename_related_files config env old_path new_path True
                (logm Info ''Dry run enabled, not actually renaming the file.'' s1))
      else
        (case py_item file_data ''id'' of
           Inl e \<Rightarrow> Some (s1, Some e)
         | Inr file_id \<Rightarrow>
             (case get_new_file_folder config env scene_data file_data of
                None \<Rightarrow> None
              | Some (Inl e) \<Rightarrow> Some (s1, Some e)
              | Some (Inr folder) \<Rightarrow>
                  (case get_new_file_name config env scene_data file_data (duplicate_index s1) of
                     None \<Rightarrow> None
                   | Some (Inl e) \<Rightarrow> Some (s1, Some e)
                   | Some (Inr name) \<Rightarrow>
                       let s2 = emit (MoveFiles file_id folder name) s1 in
                       (case move_files env (world s2) file_id folder name of
                          Inl e \<Rightarrow> Some (s2, Some e)
                        | Inr (moved_file, w1) \<Rightarrow>
                            Some (rename_related_files config env old_path new_path False
                                    (logm Info (''File renamed successfully: ''
                                       @ py_str moved_file) (s2\<lparr>world := w1\<rparr>))))))))"

text \<open>
  \<^verbatim>\<open>rename_file\<close>: \<open>None\<close> when it does not return, else the state reached and the
  exception it raised, if any.
\<close>

definition rename_file ::
  "config \<Rightarrow> 'w env \<Rightarrow> pyval \<Rightarrow> pyval \<Rightarrow> 'w state \<Rightarrow> ('w state \<times> py_error option) option" where
  "rename_file config env scene_data file_data s =
     (case get_old_file_path env file_data of
        Inl e \<Rightarrow> Some (s, Some e)
      | Inr old_path \<Rightarrow>
          (case get_new_file_path config env scene_data file_data (duplicate_index s) of
             None \<Rightarrow> None
           | Some (Inl e) \<Rightarrow> Some (s, Some e)
           | Some (Inr new_path) \<Rightarrow>
               let s1 = emit (Exists old_path) s in
               if \<not> os_exists env (world s) old_path then
                 Some (logm Warning (''File for scene does not exist on disk: ''
                         @ str_of_path old_path) s1, None)
               else if old_path = new_path then
                 Some (logm Info ''File paths are the same, no renaming needed.'' s1, None)
               else
                 (case collision_loop config env scene_data file_data old_path new_path
                         (logm Debug (''Checking if a file exists at '' @ str_of_path new_path) s1) of
                    None \<Rightarrow> None
                  | Some (s2, Inl e) \<Rightarrow> Some (s2, Some e)
                  | Some (s2, Inr None) \<Rightarrow> Some (s2, None)
                  | Some (s2, Inr (Some final_path)) \<Rightarrow>
                      perform_rename config env scene_data file_data old_path final_path s2)))"


section \<open>Vocabulary of the properties\<close>

text \<open>
  A placeholder token \<^verbatim>\<open>$name$\<close>, as the pattern of the optional sections reads it:
  a dollar sign, word characters, a dollar sign. \<open>has_placeholder\<close> looks for one at any
  position.
\<close>

definition placeholder_token :: regex where
  "placeholder_token = [(Lit (CHR ''$''), Once), (WordChar, Plus), (Lit (CHR ''$''), Once)]"

fun has_placeholder :: "string \<Rightarrow> bool" where
  "has_placeholder [] = False"
| "has_placeholder (c # cs) = (rmatch placeholder_token (c # cs) \<noteq> None \<or> has_placeholder cs)"

text \<open>A catalog that knows no studio: \<^verbatim>\<open>find_studio\<close> answers \<^verbatim>\<open>None\<close>.\<close>

definition no_studio :: stash where
  "no_studio = (\<lambda>_. Inr PNone)"

text \<open>
  A small world for the examples: the state is the list of the paths that exist. Making
  a directory changes nothing, a rename fails with an \<^verbatim>\<open>OSError\<close> for the sources listed
  in \<open>faulty\<close> and moves the entry otherwise, a glob lists the entries of the directory
  whose name starts with the pattern up to its star, and the catalog accepts every move.
\<close>

definition demo_env :: "path list \<Rightarrow> path list env" where
  "demo_env faulty =
     \<lparr>cwd = Path 1 [''work''],
      find_studio = no_studio,
      os_exists = (\<lambda>w p. p \<in> set w),
      os_glob = (\<lambda>w d pattern. filter (\<lambda>p. parent p = d \<and> prefix (butlast pattern) (path_name p)) w),
      os_mkdir = (\<lambda>w p. Inr w),
      os_rename = (\<lambda>w a b. if a \<in> set faulty then Inl (OSError ''Permission denied'')
                            else Inr (b # removeAll a w)),
      move_files = (\<lambda>w file_id folder name. Inr (PBool True, w))\<rparr>"

definition demo_config :: config where
  "demo_config =
     \<lparr>default_directory_path_format = [],
      second_directory_path_format = [],
      default_graphql_endpoint = [],
      default_file_name_format = ''$title$.$ext$'',
      duplicate_file_suffix = '' ($index$)'',
      allow_unsafe_characters = False,
      remove_extra_spaces_from_file_name = False,
      remove_and_replace_as_in_whisparr = False,
      cfg_rename_related_files = True,
      cfg_dry_run = False\<rparr>"

definition demo_scene :: pyval where
  "demo_scene = PDict [(''id'', PStr ''7''), (''title'', PStr ''Show'')]"

definition demo_file :: pyval where
  "demo_file =
     PDict [(''id'', PStr ''12''), (''path'', PStr ''/videos/old.mp4''),
            (''basename'', PStr ''old.mp4'')]"

text \<open>
  A finite parent chain, as claim C9 words it: every studio of the chain is a record with
  a name, each lookup returns the next parent, and after fewer than \<open>n\<close> lookups a studio
  without a parent is reached. The names are listed from the root to the leaf.
\<close>

fun chain_names :: "stash \<Rightarrow> nat \<Rightarrow> pyval \<Rightarrow> string list option" where
  "chain_names lookup 0 studio = None"
| "chain_names lookup (Suc n) studio =
     (case studio of
        PDict d \<Rightarrow>
          (case map_of d ''name'' of
             Some (PStr name) \<Rightarrow>
               (case map_of d ''parent_studio'' of
                  None \<Rightarrow> Some [name]
                | Some parent_ref \<Rightarrow>
                    if truthy parent_ref then
                      (case lookup parent_ref of
                         Inr next_studio \<Rightarrow>
                           map_option (\<lambda>names. names @ [name]) (chain_names lookup n next_studio)
                       | Inl e \<Rightarrow> None)
                    else Some [name])
           | _ \<Rightarrow> None)
      | _ \<Rightarrow> None)"

text \<open>Studio \<open>A\<close> with parent \<open>B\<close> with parent \<open>C\<close>, and the catalog that knows them.\<close>

definition studio_C :: pyval where
  "studio_C = PDict [(''id'', PStr ''3''), (''name'', PStr ''C''), (''parent_studio'', PNone)]"

definition studio_B :: pyval where
  "studio_B =
     PDict [(''id'', PStr ''2''), (''name'', PStr ''B''),
            (''parent_studio'', PDict [(''id'', PStr ''3'')])]"

definition studio_A :: pyval where
  "studio_A =
     PDict [(''id'', PStr ''1''), (''name'', PStr ''A''),
            (''parent_studio'', PDict [(''id'', PStr ''2'')])]"

definition demo_catalog :: stash where
  "demo_catalog = (\<lambda>v.
     if v = PDict [(''id'', PStr ''2'')] then Inr studio_B
     else if v = PDict [(''id'', PStr ''3'')] then Inr studio_C
     else Inr PNone)"







definition variable_names :: "string list" where
  "variable_names = map fst FILE_VARIABLES @ map fst SCENE_VARIABLES"

text \<open>
  The events that change nothing: a log message, an existence check, a directory
  listing. \<open>quiet\<close> events are the first two only.
\<close>

fun read_only :: "event \<Rightarrow> bool" where
  "read_only (Log lvl msg) = True"
| "read_only (Exists p) = True"
| "read_only (Glob d pattern) = True"
| "read_only _ = False"

fun quiet :: "event \<Rightarrow> bool" where
  "quiet (Log lvl msg) = True"
| "quiet (Exists p) = True"
| "quiet _ = False"

text \<open>A title that holds each of the nine characters \<^verbatim>\<open>< > : " / \ | ? *\<close> once.\<close>

definition all_unsafe_title :: string where
  "all_unsafe_title = ''a<b>c:d'' @ [CHR 0x22] @ ''e/f'' @ [CHR 0x5C] @ ''g|h?i*j''"

















text \<open>
  A template read as the specification describes it: literal text and placeholders
  \<^verbatim>\<open>$name$\<close>. \<open>flat\<close> writes the pieces out, a placeholder by the text that \<open>sub\<close> gives
  its variable, or as it stands when \<open>sub\<close> gives none. \<open>template_of\<close> is the template
  itself, \<open>substituted\<close> the template in which the placeholders of the variables with a
  non-empty value are replaced by the text of the value.
\<close>

datatype piece = Text string | Hole string

fun fill :: "(string \<rightharpoonup> string) \<Rightarrow> piece \<Rightarrow> string" where
  "fill sub (Text s) = s"
| "fill sub (Hole v) = (case sub v of Some t \<Rightarrow> t | None \<Rightarrow> placeholder v)"

definition flat :: "(string \<rightharpoonup> string) \<Rightarrow> piece list \<Rightarrow> string" where
  "flat sub ps = concat (map (fill sub) ps)"

definition template_of :: "piece list \<Rightarrow> string" where
  "template_of ps = flat (\<lambda>v. None) ps"

definition texts :: "(string \<Rightarrow> pyval) \<Rightarrow> string \<rightharpoonup> string" where
  "texts value v = (if truthy (value v) then Some (py_str (value v)) else None)"

definition substituted :: "(string \<Rightarrow> pyval) \<Rightarrow> piece list \<Rightarrow> string" where
  "substituted value ps = flat (texts value) ps"

text \<open>The contiguous runs of a list.\<close>

definition segments :: "'a list \<Rightarrow> 'a list list" where
  "segments xs = concat (map prefixes (suffixes xs))"

text \<open>
  The dollar signs of a template of pieces are those of its placeholders, and these name
  defined variables.
\<close>

fun piece_ok :: "piece \<Rightarrow> bool" where
  "piece_ok (Text s) = (CHR ''$'' \<notin> set s)"
| "piece_ok (Hole v) = (v \<in> set variable_names)"

text \<open>
  The text up to the first line break. A match of the pattern of the optional sections
  stays on one line (\<^verbatim>\<open>.\<close> takes no line break) and, being greedy, ends with the last
  closing brace of that line: \<open>ends_at_last_brace\<close>.
\<close>

definition first_line :: "string \<Rightarrow> string" where
  "first_line s = takeWhile (\<lambda>c. c \<noteq> CHR 0x0A) s"

abbreviation ends_at_last_brace :: "string \<Rightarrow> nat \<Rightarrow> bool" where
  "ends_at_last_brace s n \<equiv>
     \<exists>a b. s = a @ CHR ''}'' # b \<and> n = Suc (length a) \<and> CHR 0x0A \<notin> set a
           \<and> CHR ''}'' \<notin> set (first_line b)"

text \<open>
  Every placeholder left without a value has an opening brace before it and a closing
  brace after it on its line, as it has inside an optional section: on the pieces
  (\<open>before\<close> are the pieces already passed), and on a string, where every dollar sign is
  moreover part of a token \<^verbatim>\<open>$word$\<close>.
\<close>

fun empty_holes_enclosed :: "(string \<rightharpoonup> string) \<Rightarrow> piece list \<Rightarrow> piece list \<Rightarrow> bool" where
  "empty_holes_enclosed sub before [] = True"
| "empty_holes_enclosed sub before (p # after) =
     ((case p of
         Text s \<Rightarrow> True
       | Hole v \<Rightarrow>
           sub v = None \<longrightarrow>
             CHR ''{'' \<in> set (first_line (rev (flat sub before)))
             \<and> CHR ''}'' \<in> set (first_line (flat sub after)))
      \<and> empty_holes_enclosed sub (before @ [p]) after)"

abbreviation dollars_enclosed :: "string \<Rightarrow> bool" where
  "dollars_enclosed s \<equiv>
     \<forall>a b. s = a @ CHR ''$'' # b \<longrightarrow>
       (CHR ''{'' \<in> set (first_line (rev a)) \<and> CHR ''}'' \<in> set (first_line b))
       \<and> ((\<exists>w b'. b = w @ CHR ''$'' # b' \<and> w \<noteq> [] \<and> list_all is_word_char w)
          \<or> (\<exists>a' w. a = a' @ CHR ''$'' # w \<and> w \<noteq> [] \<and> list_all is_word_char w))"

text \<open>
  The template \<^verbatim>\<open>{$director$ - }$title$\<close>, and the values of a scene that has a title and
  nothing else.
\<close>

definition director_template :: "piece list" where
  "director_template = [Text ''{'', Hole ''director'', Text '' - }'', Hole ''title'']"

definition title_only :: "string \<Rightarrow> pyval" where
  "title_only v = (if v = ''title'' then PStr ''Show'' else PStr [])"




section \<open>Optional sections\<close>

lemma replace_ne_char: "replace_ne [c] [] s = filter (\<lambda>x. x \<noteq> c) s"
  by (induction s) auto

lemma clean_optional_filter:
  "clean_optional_from_format s =
     filter (\<lambda>x. x \<noteq> CHR ''}'') (filter (\<lambda>x. x \<noteq> CHR ''{'')
       (re_sub optional_section [] s))"
  by (simp add: clean_optional_from_format_def py_replace_def replace_ne_char)

text \<open>
  Claim C1 asks that, among several optional sections, exactly the sections that still
  hold an unresolved placeholder are elided, each matched on its own, and that a section
  whose placeholders all resolved keeps its content. The pattern is greedy: with the
  director absent, the title \<open>Show\<close> and the date \<open>2021-05-01\<close>, the template
  \<^verbatim>\<open>{$director$ - }$title${ ($year$)}\<close> becomes \<^verbatim>\<open>{$director$ - }Show{ (2021)}\<close> after
  substitution, and the match runs from the first opening brace to the last closing one:
  the result is empty, where the claim gives \<open>Show (2021)\<close>.
\<close>

theorem optional_sections_elided_greedily:
  "clean_optional_from_format ''{$director$ - }Show{ (2021)}'' = []
   \<and> apply_format ''{$director$ - }$title${ ($year$)}'' no_studio
        (PDict [(''title'', PStr ''Show''), (''date'', PStr ''2021-05-01'')]) (PDict [])
      = ret []"
  by code_simp


section \<open>What the formatter returns\<close>

lemma bindc_ret_iff:
  "bindc m f = Some (Inr y) \<longleftrightarrow> (\<exists>x. m = Some (Inr x) \<and> f x = Some (Inr y))"
  by (auto simp: bindc_def split: option.splits sum.splits)

lemma variable_names_list:
  "variable_names =
     [''audio_codec'', ''ext'', ''format'', ''height'', ''index'', ''video_codec'', ''width'',
      ''scene_id'', ''title'', ''date'', ''director'', ''month'', ''parent_studio_chain'',
      ''studio_code'', ''studio_name'', ''year'', ''endpoints'']"
  by (simp add: variable_names_def FILE_VARIABLES_def SCENE_VARIABLES_def)

text \<open>
  Claim C3 says that the string returned by \<open>apply_format\<close> holds no placeholder token any
  more, also when a known placeholder resolved to the empty string outside every optional
  section. The loop skips a variable whose value is empty, and only the optional sections
  are cleaned afterwards: with no title, the template \<^verbatim>\<open>$title$\<close> comes back as it is.
\<close>

theorem unresolved_placeholder_remains:
  "apply_format ''$title$'' no_studio (PDict []) (PDict []) = ret ''$title$''
   \<and> has_placeholder ''$title$''"
  by code_simp

subsection \<open>Templates of pieces\<close>

lemma flat_Nil [simp]: "flat sub [] = []"
  by (simp add: flat_def)

lemma flat_Cons [simp]: "flat sub (p # ps) = fill sub p @ flat sub ps"
  by (simp add: flat_def)

lemma flat_append [simp]: "flat sub (a @ b) = flat sub a @ flat sub b"
  by (simp add: flat_def)

lemma replace_skip:
  "CHR ''$'' \<notin> set a \<Longrightarrow>
   replace_ne (placeholder v) t (a @ s) = a @ replace_ne (placeholder v) t s"
  by (induction a) (auto simp: placeholder_def)

lemma replace_hit:
  "replace_ne (placeholder v) t (placeholder v @ s) = t @ replace_ne (placeholder v) t s"
  by (simp add: placeholder_def)

lemma prefix_dollar:
  "CHR ''$'' \<notin> set v \<Longrightarrow> CHR ''$'' \<notin> set b \<Longrightarrow> prefix (v @ CHR ''$'' # x) (b @ CHR ''$'' # r)
   \<Longrightarrow> v = b"
proof (induction v arbitrary: b)
  case Nil
  then show ?case by (cases b) auto
next
  case (Cons c v)
  then show ?case by (cases b) auto
qed

lemma replace_miss:
  assumes "CHR ''$'' \<notin> set b" and "CHR ''$'' \<notin> set v" and "b \<noteq> v"
  shows "replace_ne (placeholder v) t (CHR ''$'' # b @ CHR ''$'' # r)
           = CHR ''$'' # b @ replace_ne (placeholder v) t (CHR ''$'' # r)"
proof -
  have "\<not> prefix (v @ ''$'') (b @ CHR ''$'' # r)"
    using prefix_dollar [OF assms(2,1), of "[]" r] assms(3) by auto
  then have "replace_ne (placeholder v) t (CHR ''$'' # b @ CHR ''$'' # r)
               = CHR ''$'' # replace_ne (placeholder v) t (b @ CHR ''$'' # r)"
    by (simp add: placeholder_def)
  with replace_skip [OF assms(1)] show ?thesis by simp
qed

lemma replace_end:
  assumes "CHR ''$'' \<notin> set b"
  shows "replace_ne (placeholder v) t (CHR ''$'' # b) = CHR ''$'' # b"
proof -
  have "\<not> prefix (v @ ''$'') b"
  proof
    assume "prefix (v @ ''$'') b"
    then have "set (v @ ''$'') \<subseteq> set b" by (rule set_mono_prefix)
    with assms show False by simp
  qed
  then have "replace_ne (placeholder v) t (CHR ''$'' # b)
               = CHR ''$'' # replace_ne (placeholder v) t b"
    by (simp add: placeholder_def)
  with replace_skip [OF assms, of v t "[]"] show ?thesis by simp
qed

lemma replace_pieces:
  assumes "\<forall>u t'. sub u = Some t' \<longrightarrow> CHR ''$'' \<notin> set t'"
    and "sub v = None"
    and "CHR ''$'' \<notin> set v"
  shows "(\<forall>p\<in>set ps. case p of Text s \<Rightarrow> CHR ''$'' \<notin> set s | Hole u \<Rightarrow> CHR ''$'' \<notin> set u) \<Longrightarrow>
         (\<forall>a seg b. ps = a @ seg @ b \<longrightarrow> flat sub seg \<noteq> v) \<Longrightarrow>
         replace_ne (placeholder v) t (flat sub ps) = flat (sub(v \<mapsto> t)) ps
         \<and> (\<forall>acc. CHR ''$'' \<notin> set acc \<longrightarrow> (\<forall>seg. prefix seg ps \<longrightarrow> acc @ flat sub seg \<noteq> v) \<longrightarrow>
               replace_ne (placeholder v) t (CHR ''$'' # acc @ flat sub ps)
                 = CHR ''$'' # acc @ flat (sub(v \<mapsto> t)) ps)"
proof (induction ps)
  case Nil
  then show ?case by (simp add: replace_end del: replace_ne.simps(2))
next
  case (Cons p ps)
  let ?R = "replace_ne (placeholder v) t"
  let ?sub' = "sub(v \<mapsto> t)"
  from Cons.prems(1) have ok: "\<forall>p\<in>set ps. case p of Text s \<Rightarrow> CHR ''$'' \<notin> set s
                                           | Hole u \<Rightarrow> CHR ''$'' \<notin> set u"
    by simp
  have segs: "\<forall>a seg b. ps = a @ seg @ b \<longrightarrow> flat sub seg \<noteq> v"
  proof (intro allI impI)
    fix a seg b
    assume "ps = a @ seg @ b"
    then have "p # ps = (p # a) @ seg @ b" by simp
    with Cons.prems(2) show "flat sub seg \<noteq> v" by blast
  qed
  from Cons.IH [OF ok segs]
  have A: "?R (flat sub ps) = flat ?sub' ps"
    and B: "\<And>acc. CHR ''$'' \<notin> set acc \<Longrightarrow> (\<forall>seg. prefix seg ps \<longrightarrow> acc @ flat sub seg \<noteq> v) \<Longrightarrow>
               ?R (CHR ''$'' # acc @ flat sub ps) = CHR ''$'' # acc @ flat ?sub' ps"
    by blast+
  have pre: "\<forall>seg. prefix seg ps \<longrightarrow> flat sub seg \<noteq> v"
  proof (intro allI impI)
    fix seg
    assume "prefix seg ps"
    then obtain b where "ps = seg @ b" by (auto simp: prefix_def)
    then have "ps = [] @ seg @ b" by simp
    with segs show "flat sub seg \<noteq> v" by blast
  qed
  have plain: "?R (flat sub (p # ps)) = flat ?sub' (p # ps)
       \<and> (\<forall>acc. CHR ''$'' \<notin> set acc \<longrightarrow> (\<forall>seg. prefix seg (p # ps) \<longrightarrow> acc @ flat sub seg \<noteq> v) \<longrightarrow>
               ?R (CHR ''$'' # acc @ flat sub (p # ps))
                 = CHR ''$'' # acc @ flat ?sub' (p # ps))"
    if x: "CHR ''$'' \<notin> set (fill sub p)" and same: "fill ?sub' p = fill sub p"
  proof (intro conjI allI impI)
    have "?R (fill sub p @ flat sub ps) = fill sub p @ ?R (flat sub ps)"
      by (rule replace_skip [OF x])
    then show "?R (flat sub (p # ps)) = flat ?sub' (p # ps)"
      unfolding flat_Cons same A .
  next
    fix acc
    assume acc: "CHR ''$'' \<notin> set acc"
      and h: "\<forall>seg. prefix seg (p # ps) \<longrightarrow> acc @ flat sub seg \<noteq> v"
    have h': "\<forall>seg. prefix seg ps \<longrightarrow> (acc @ fill sub p) @ flat sub seg \<noteq> v"
    proof (intro allI impI)
      fix seg
      assume "prefix seg ps"
      then have "prefix (p # seg) (p # ps)" by simp
      with h have "acc @ flat sub (p # seg) \<noteq> v" by blast
      then show "(acc @ fill sub p) @ flat sub seg \<noteq> v"
        unfolding flat_Cons append_assoc .
    qed
    from acc x have "CHR ''$'' \<notin> set (acc @ fill sub p)" by simp
    from B [OF this h']
    show "?R (CHR ''$'' # acc @ flat sub (p # ps)) = CHR ''$'' # acc @ flat ?sub' (p # ps)"
      unfolding flat_Cons append_assoc same .
  qed
  show ?case
  proof (cases p)
    case (Text s)
    with Cons.prems(1) have "CHR ''$'' \<notin> set (fill sub p)" by simp
    moreover from Text have "fill ?sub' p = fill sub p" by simp
    ultimately show ?thesis by (rule plain)
  next
    case (Hole u)
    with Cons.prems(1) have u: "CHR ''$'' \<notin> set u" by simp
    show ?thesis
    proof (cases "sub u")
      case (Some x)
      with assms(1) have "CHR ''$'' \<notin> set x" by blast
      with Hole Some have "CHR ''$'' \<notin> set (fill sub p)" by simp
      moreover from Hole Some assms(2) have "fill ?sub' p = fill sub p" by auto
      ultimately show ?thesis by (rule plain)
    next
      case None
      have A': "?R (flat sub (p # ps)) = flat ?sub' (p # ps)"
      proof (cases "u = v")
        case True
        with Hole None A replace_hit [of v t "flat sub ps"] show ?thesis by simp
      next
        case False
        have "?R (CHR ''$'' # u @ CHR ''$'' # flat sub ps)
                = CHR ''$'' # u @ ?R (CHR ''$'' # flat sub ps)"
          using False by (intro replace_miss u assms(3))
        moreover have "?R (CHR ''$'' # [] @ flat sub ps) = CHR ''$'' # [] @ flat ?sub' ps"
          using pre by (intro B) simp_all
        ultimately show ?thesis using Hole None False by (simp add: placeholder_def)
      qed
      have B': "?R (CHR ''$'' # acc @ flat sub (p # ps)) = CHR ''$'' # acc @ flat ?sub' (p # ps)"
        if acc: "CHR ''$'' \<notin> set acc"
          and h: "\<forall>seg. prefix seg (p # ps) \<longrightarrow> acc @ flat sub seg \<noteq> v" for acc
      proof -
        from h have "acc @ flat sub [] \<noteq> v" by (metis Nil_prefix)
        then have ne: "acc \<noteq> v" by simp
        have "?R (CHR ''$'' # acc @ CHR ''$'' # (u @ CHR ''$'' # flat sub ps))
                = CHR ''$'' # acc @ ?R (CHR ''$'' # (u @ CHR ''$'' # flat sub ps))"
          by (intro replace_miss acc assms(3) ne)
        moreover have "flat sub (p # ps) = CHR ''$'' # (u @ CHR ''$'' # flat sub ps)"
          using Hole None by (simp add: placeholder_def)
        ultimately show ?thesis using A' by simp
      qed
      from A' B' show ?thesis by blast
    qed
  qed
qed

lemma variable_names_plain: "v \<in> set variable_names \<Longrightarrow> CHR ''$'' \<notin> set v"
  unfolding variable_names_list by auto

lemma find_variables_filter:
  "find_variables t = filter (\<lambda>v. contains t (placeholder v)) variable_names"
  by (simp add: find_variables_def variable_names_def)

lemma distinct_variable_names: "distinct variable_names"
  unfolding variable_names_list by simp

lemma contains_append: "contains (a @ s @ b) s"
proof (induction a)
  case Nil
  have "prefix s (s @ b)" by simp
  then show ?case by (cases "s @ b") auto
next
  case (Cons c a)
  then show ?case by simp
qed

lemma in_segments: "seg \<in> set (segments (a @ seg @ b))"
proof -
  have "seg @ b \<in> set (suffixes (a @ seg @ b))" by (simp add: suffix_def)
  moreover have "seg \<in> set (prefixes (seg @ b))" by simp
  ultimately show ?thesis unfolding segments_def set_concat set_map by blast
qed

lemma hole_found:
  assumes "Hole u \<in> set ps" and "u \<in> set variable_names"
  shows "u \<in> set (find_variables (template_of ps))"
proof -
  from assms(1) obtain a b where "ps = a @ Hole u # b" by (auto dest: split_list)
  then have "template_of ps = flat (\<lambda>v. None) a @ placeholder u @ flat (\<lambda>v. None) b"
    by (simp add: template_of_def)
  then have "contains (template_of ps) (placeholder u)" by (simp add: contains_append)
  with assms(2) show ?thesis by (simp add: find_variables_filter)
qed

lemma flat_cong:
  "(\<And>u. Hole u \<in> set ps \<Longrightarrow> G u = F u) \<Longrightarrow> flat G ps = flat F ps"
proof (induction ps)
  case Nil
  show ?case by simp
next
  case (Cons p ps)
  then have "fill G p = fill F p" by (cases p) auto
  with Cons show ?case by simp
qed

lemma flat_plain_eq:
  "CHR ''$'' \<notin> set (flat G seg) \<Longrightarrow> (\<And>u t. G u = Some t \<Longrightarrow> F u = Some t) \<Longrightarrow>
   flat G seg = flat F seg"
proof (induction seg)
  case Nil
  show ?case by simp
next
  case (Cons p seg)
  have "fill G p = fill F p"
  proof (cases p)
    case (Text s)
    then show ?thesis by simp
  next
    case (Hole u)
    show ?thesis
    proof (cases "G u")
      case None
      with Hole Cons.prems(1) show ?thesis by (simp add: placeholder_def)
    next
      case (Some t)
      with Cons.prems(2) have "F u = Some t" by blast
      with Some Hole show ?thesis by simp
    qed
  qed
  with Cons show ?case by simp
qed

lemma substitute_pieces:
  assumes ok: "list_all piece_ok ps"
    and vals: "\<And>u t. F u = Some t \<Longrightarrow> CHR ''$'' \<notin> set t"
    and segs: "list_all (\<lambda>seg. flat F seg \<notin> set variable_names) (segments ps)"
  shows "distinct vs \<Longrightarrow> set vs \<subseteq> set variable_names \<Longrightarrow> set vs \<inter> D = {} \<Longrightarrow>
         (\<forall>v\<in>set vs. resolve lookup scene_data file_data v = Some (Inr (value v))
                     \<and> F v = texts value v) \<Longrightarrow>
         substitute lookup scene_data file_data vs (flat (restrict_map F D) ps)
           = Some (Inr (flat (restrict_map F (D \<union> set vs)) ps))"
proof (induction vs arbitrary: D)
  case Nil
  then show ?case by (simp add: ret_def)
next
  case (Cons v vs)
  from Cons.prems have v: "v \<in> set variable_names" "v \<notin> D" "v \<notin> set vs"
    and r: "resolve lookup scene_data file_data v = Some (Inr (value v))"
    and F: "F v = texts value v"
    by auto
  have IH: "substitute lookup scene_data file_data vs (flat (restrict_map F (insert v D)) ps)
           = Some (Inr (flat (restrict_map F (insert v D \<union> set vs)) ps))"
    using Cons.prems v by (intro Cons.IH) auto
  have un: "insert v D \<union> set vs = D \<union> set (v # vs)" by simp
  show ?case
  proof (cases "truthy (value v)")
    case False
    then have "F v = None" by (simp add: F texts_def)
    then have "restrict_map F (insert v D) = restrict_map F D"
      by (auto simp: restrict_map_def fun_eq_iff)
    with IH un r False show ?thesis by (simp add: bindc_def)
  next
    case True
    let ?t = "py_str (value v)"
    have Fv: "F v = Some ?t" using True by (simp add: F texts_def)
    have pok: "\<forall>p\<in>set ps. case p of Text s \<Rightarrow> CHR ''$'' \<notin> set s | Hole u \<Rightarrow> CHR ''$'' \<notin> set u"
    proof
      fix p
      assume "p \<in> set ps"
      with ok have "piece_ok p" unfolding list_all_iff by blast
      then show "case p of Text s \<Rightarrow> CHR ''$'' \<notin> set s | Hole u \<Rightarrow> CHR ''$'' \<notin> set u"
        by (cases p) (auto simp: variable_names_plain)
    qed
    have sg: "\<forall>a seg b. ps = a @ seg @ b \<longrightarrow> flat (restrict_map F D) seg \<noteq> v"
    proof (intro allI impI notI)
      fix a seg b
      assume ps: "ps = a @ seg @ b" and eq: "flat (restrict_map F D) seg = v"
      from ps have "seg \<in> set (segments ps)" by (simp add: in_segments)
      with segs have nn: "flat F seg \<notin> set variable_names" by (simp add: list_all_iff)
      from eq v(1) have "CHR ''$'' \<notin> set (flat (restrict_map F D) seg)"
        by (simp add: variable_names_plain)
      then have "flat (restrict_map F D) seg = flat F seg"
        by (rule flat_plain_eq) (auto simp: restrict_map_def split: if_splits)
      with eq nn v(1) show False by simp
    qed
    have "replace_ne (placeholder v) ?t (flat (restrict_map F D) ps)
            = flat ((restrict_map F D)(v \<mapsto> ?t)) ps"
      using replace_pieces [where sub = "restrict_map F D" and v = v and t = ?t and ps = ps]
        pok sg vals v
      by (auto simp: restrict_map_def variable_names_plain split: if_splits)
    moreover have "(restrict_map F D)(v \<mapsto> ?t) = restrict_map F (insert v D)"
      using Fv by (auto simp: restrict_map_def fun_eq_iff)
    moreover have "py_replace s (placeholder v) ?t = replace_ne (placeholder v) ?t s" for s
      by (simp add: py_replace_def placeholder_def)
    ultimately show ?thesis using IH un r True by (simp add: bindc_def)
  qed
qed

lemma apply_format_pieces:
  assumes ok: "list_all piece_ok ps"
    and res: "list_all (\<lambda>v. resolve lookup scene_data file_data v = Some (Inr (value v))
                           \<and> (truthy (value v) \<longrightarrow> CHR ''$'' \<notin> set (py_str (value v))))
                (find_variables (template_of ps))"
    and segs: "list_all (\<lambda>seg. substituted value seg \<notin> set variable_names) (segments ps)"
  shows "apply_format (template_of ps) lookup scene_data file_data
           = Some (Inr (clean_optional_from_format (substituted value ps)))"
proof -
  let ?vs = "find_variables (template_of ps)"
  define G where "G = restrict_map (texts value) (set ?vs)"
  have vals: "CHR ''$'' \<notin> set t" if "G u = Some t" for u t
    using that res by (auto simp: G_def restrict_map_def texts_def list_all_iff split: if_splits)
  have GF: "flat G seg = flat (texts value) seg" if "set seg \<subseteq> set ps" for seg
  proof (rule flat_cong)
    fix u
    assume "Hole u \<in> set seg"
    with that have h: "Hole u \<in> set ps" by auto
    with ok have "piece_ok (Hole u)" unfolding list_all_iff by blast
    then have "u \<in> set variable_names" by simp
    with h have "u \<in> set ?vs" by (rule hole_found)
    then show "G u = texts value u" by (simp add: G_def)
  qed
  have segs': "list_all (\<lambda>seg. flat G seg \<notin> set variable_names) (segments ps)"
    unfolding list_all_iff
  proof
    fix seg
    assume seg: "seg \<in> set (segments ps)"
    then obtain a b where "ps = a @ seg @ b"
      by (auto simp: segments_def prefix_def suffix_def)
    then have "set seg \<subseteq> set ps" by auto
    from GF [OF this] segs seg show "flat G seg \<notin> set variable_names"
      by (simp add: list_all_iff substituted_def)
  qed
  have "substitute lookup scene_data file_data ?vs (flat (restrict_map G {}) ps)
          = Some (Inr (flat (restrict_map G ({} \<union> set ?vs)) ps))"
  proof (rule substitute_pieces [OF ok vals segs'])
    show "distinct ?vs" by (simp add: find_variables_filter distinct_variable_names)
    show "set ?vs \<subseteq> set variable_names" by (auto simp: find_variables_filter)
    show "set ?vs \<inter> {} = {}" by simp
    show "\<forall>v\<in>set ?vs. resolve lookup scene_data file_data v = Some (Inr (value v))
                     \<and> G v = texts value v"
      using res by (simp add: list_all_iff G_def)
  qed
  moreover have "flat (restrict_map G {}) ps = template_of ps"
    by (simp add: template_of_def)
  moreover have "restrict_map G ({} \<union> set ?vs) = G"
    by (auto simp: G_def restrict_map_def fun_eq_iff)
  moreover have "flat G ps = substituted value ps"
    using GF [of ps] by (simp add: substituted_def)
  ultimately show ?thesis by (simp add: apply_format_def bindc_def ret_def)
qed

lemma first_line_Cons:
  "first_line (x # xs) = (if x = CHR 0x0A then [] else x # first_line xs)"
  by (simp add: first_line_def)

lemma first_line_Nil [simp]: "first_line [] = []"
  by (simp add: first_line_def)

lemma first_line_append:
  "first_line (a @ b) = (if CHR 0x0A \<in> set a then first_line a else a @ first_line b)"
  by (induction a) (auto simp: first_line_Cons)

lemma tail_complete:
  "CHR ''}'' \<in> set (first_line s) \<Longrightarrow>
   rmatch [(AnyChar, Star), (Lit (CHR ''}''), Once)] s \<noteq> None"
proof (induction s)
  case Nil
  then show ?case by simp
next
  case (Cons x xs)
  then show ?case by (auto simp: first_line_Cons split: if_splits option.splits)
qed

lemma tail_match:
  "rmatch [(AnyChar, Star), (Lit (CHR ''}''), Once)] s = Some n \<Longrightarrow> ends_at_last_brace s n"
proof (induction s arbitrary: n)
  case Nil
  then show ?case by simp
next
  case (Cons x xs)
  show ?case
  proof (cases "x = CHR 0x0A")
    case True
    with Cons.prems show ?thesis by simp
  next
    case False
    show ?thesis
    proof (cases "rmatch [(AnyChar, Star), (Lit (CHR ''}''), Once)] xs")
      case (Some m)
      with Cons.prems False have n: "n = Suc m" by simp
      from Cons.IH [OF Some] obtain a b where
        "xs = a @ CHR ''}'' # b" "m = Suc (length a)" "CHR 0x0A \<notin> set a"
        "CHR ''}'' \<notin> set (first_line b)"
        by blast
      with n False have "x # xs = (x # a) @ CHR ''}'' # b \<and> n = Suc (length (x # a))
          \<and> CHR 0x0A \<notin> set (x # a) \<and> CHR ''}'' \<notin> set (first_line b)"
        by simp
      then show ?thesis by blast
    next
      case None
      with tail_complete [of xs] have nb: "CHR ''}'' \<notin> set (first_line xs)" by blast
      from None Cons.prems False have "x = CHR ''}''" "n = Suc 0"
        by (auto split: if_splits)
      with nb have "x # xs = [] @ CHR ''}'' # xs \<and> n = Suc (length ([] :: string))
          \<and> CHR 0x0A \<notin> set ([] :: string) \<and> CHR ''}'' \<notin> set (first_line xs)"
        by simp
      then show ?thesis by blast
    qed
  qed
qed

lemma once_match:
  assumes "\<And>s n. rmatch r s = Some n \<Longrightarrow> ends_at_last_brace s n"
    and "\<And>x. cmatch c x \<Longrightarrow> x \<noteq> CHR 0x0A"
    and "rmatch ((c, Once) # r) s = Some n"
  shows "ends_at_last_brace s n"
proof (cases s)
  case Nil
  with assms(3) show ?thesis by simp
next
  case (Cons x xs)
  with assms(3) obtain m where c: "cmatch c x" and m: "rmatch r xs = Some m" and n: "n = Suc m"
    by (auto split: if_splits)
  from assms(1) [OF m] obtain a b where
    "xs = a @ CHR ''}'' # b" "m = Suc (length a)" "CHR 0x0A \<notin> set a"
    "CHR ''}'' \<notin> set (first_line b)"
    by blast
  with n assms(2) [OF c] Cons have "s = (x # a) @ CHR ''}'' # b \<and> n = Suc (length (x # a))
      \<and> CHR 0x0A \<notin> set (x # a) \<and> CHR ''}'' \<notin> set (first_line b)"
    by simp
  then show ?thesis by blast
qed

lemma star_match:
  assumes "\<And>s n. rmatch r s = Some n \<Longrightarrow> ends_at_last_brace s n"
    and "\<And>x. cmatch c x \<Longrightarrow> x \<noteq> CHR 0x0A"
  shows "rmatch ((c, Star) # r) s = Some n \<Longrightarrow> ends_at_last_brace s n"
proof (induction s arbitrary: n)
  case Nil
  then show ?case using assms(1) [of "[]" n] by simp
next
  case (Cons x xs)
  show ?case
  proof (cases "cmatch c x \<and> rmatch ((c, Star) # r) xs \<noteq> None")
    case True
    then obtain m where c: "cmatch c x" and m: "rmatch ((c, Star) # r) xs = Some m" by auto
    with Cons.prems have n: "n = Suc m" by simp
    from Cons.IH [OF m] obtain a b where
      "xs = a @ CHR ''}'' # b" "m = Suc (length a)" "CHR 0x0A \<notin> set a"
      "CHR ''}'' \<notin> set (first_line b)"
      by blast
    with n assms(2) [OF c] have "x # xs = (x # a) @ CHR ''}'' # b \<and> n = Suc (length (x # a))
        \<and> CHR 0x0A \<notin> set (x # a) \<and> CHR ''}'' \<notin> set (first_line b)"
      by simp
    then show ?thesis by blast
  next
    case False
    with Cons.prems have "rmatch r (x # xs) = Some n" by (auto split: if_splits option.splits)
    then show ?thesis by (rule assms(1))
  qed
qed

lemma plus_match:
  assumes "\<And>s n. rmatch r s = Some n \<Longrightarrow> ends_at_last_brace s n"
    and "\<And>x. cmatch c x \<Longrightarrow> x \<noteq> CHR 0x0A"
    and "rmatch ((c, Plus) # r) s = Some n"
  shows "ends_at_last_brace s n"
proof (cases s)
  case Nil
  with assms(3) show ?thesis by simp
next
  case (Cons x xs)
  with assms(3) obtain m where c: "cmatch c x" and m: "rmatch ((c, Star) # r) xs = Some m"
    and n: "n = Suc m"
    by (auto split: if_splits)
  from star_match [OF assms(1,2) m] obtain a b where
    "xs = a @ CHR ''}'' # b" "m = Suc (length a)" "CHR 0x0A \<notin> set a"
    "CHR ''}'' \<notin> set (first_line b)"
    by blast
  with n assms(2) [OF c] Cons have "s = (x # a) @ CHR ''}'' # b \<and> n = Suc (length (x # a))
      \<and> CHR 0x0A \<notin> set (x # a) \<and> CHR ''}'' \<notin> set (first_line b)"
    by simp
  then show ?thesis by blast
qed

lemma word_char_plain:
  "is_word_char c \<Longrightarrow> c \<noteq> CHR 0x0A \<and> c \<noteq> CHR ''}'' \<and> c \<noteq> CHR ''$''"
proof -
  have "\<not> is_word_char (CHR 0x0A)" "\<not> is_word_char (CHR ''}'')" "\<not> is_word_char (CHR ''$'')"
    by code_simp+
  then show "is_word_char c \<Longrightarrow> c \<noteq> CHR 0x0A \<and> c \<noteq> CHR ''}'' \<and> c \<noteq> CHR ''$''" by auto
qed

lemma optional_section_match:
  assumes "rmatch optional_section s = Some n"
  shows "ends_at_last_brace s n"
  using assms unfolding optional_section_def
  by (elim once_match [rotated 2] star_match [rotated 2] plus_match [rotated 2] tail_match)
     (auto dest: word_char_plain)

lemma star_complete:
  "list_all (cmatch c) a \<Longrightarrow> rmatch r t \<noteq> None \<Longrightarrow> rmatch ((c, Star) # r) (a @ t) \<noteq> None"
proof (induction a)
  case Nil
  then show ?case by (cases t) (auto split: option.splits)
next
  case (Cons x a)
  then show ?case by (auto split: option.splits)
qed

lemma optional_section_complete:
  assumes "CHR 0x0A \<notin> set a" and "w \<noteq> []" and "list_all is_word_char w"
    and "CHR ''}'' \<in> set (first_line b)"
  shows "rmatch optional_section (CHR ''{'' # a @ CHR ''$'' # w @ CHR ''$'' # b) \<noteq> None"
proof -
  let ?r3 = "[(AnyChar, Star), (Lit (CHR ''}''), Once)]"
  from tail_complete [OF assms(4)] have 1: "rmatch ?r3 b \<noteq> None" .
  then have 2: "rmatch ((Lit (CHR ''$''), Once) # ?r3) (CHR ''$'' # b) \<noteq> None" by auto
  from assms(2) obtain w1 w' where w: "w = w1 # w'" by (cases w) auto
  with assms(3) have "list_all (cmatch WordChar) w'" by (simp add: list_all_iff)
  from star_complete [OF this 2]
  have "rmatch ((WordChar, Star) # (Lit (CHR ''$''), Once) # ?r3) (w' @ CHR ''$'' # b) \<noteq> None" .
  with w assms(3)
  have "rmatch ((WordChar, Plus) # (Lit (CHR ''$''), Once) # ?r3) (w @ CHR ''$'' # b) \<noteq> None"
    by auto
  then have 3: "rmatch ((Lit (CHR ''$''), Once) # (WordChar, Plus) # (Lit (CHR ''$''), Once) # ?r3)
                  (CHR ''$'' # w @ CHR ''$'' # b) \<noteq> None"
    by auto
  from assms(1) have "list_all (cmatch AnyChar) a" by (auto simp: list_all_iff)
  from star_complete [OF this 3] show ?thesis
    by (auto simp: optional_section_def)
qed

lemma suffix_after:
  assumes "xs @ c # ys = us @ vs" and "c \<notin> set vs"
  shows "\<exists>t. ys = t @ vs"
proof -
  from assms(1) consider t where "xs = us @ t" "t @ c # ys = vs"
    | t where "xs @ t = us" "c # ys = t @ vs"
    by (auto simp: append_eq_append_conv2)
  then show ?thesis
  proof cases
    case 1
    with assms(2) show ?thesis by auto
  next
    case 2
    with assms(2) show ?thesis by (cases t) auto
  qed
qed

lemma first_line_all: "CHR 0x0A \<notin> set s \<Longrightarrow> first_line s = s"
  by (induction s) (auto simp: first_line_Cons)

lemma words_plain:
  "list_all is_word_char w \<Longrightarrow>
   CHR 0x0A \<notin> set w \<and> CHR ''}'' \<notin> set w \<and> CHR ''$'' \<notin> set w"
  using word_char_plain by (auto simp: list_all_iff)

lemma erase_enclosed:
  "dollars_enclosed s \<Longrightarrow> CHR ''$'' \<notin> set (re_sub optional_section [] s)"
proof (induction optional_section "[] :: string" s rule: re_sub.induct)
  case 1
  show ?case by (simp split: option.splits)
next
  case (2 x xs)
  have x: "x \<noteq> CHR ''$''"
  proof
    assume "x = CHR ''$''"
    then have "x # xs = [] @ CHR ''$'' # xs" by simp
    with "2.prems" have "CHR ''{'' \<in> set (first_line (rev []))" by blast
    then show False by simp
  qed
  show ?case
  proof (cases "rmatch optional_section (x # xs)")
    case None
    have "dollars_enclosed xs"
    proof (intro allI impI)
      fix a b
      assume xs: "xs = a @ CHR ''$'' # b"
      then have s: "x # xs = (x # a) @ CHR ''$'' # b" by simp
      with "2.prems" have
        enc: "CHR ''{'' \<in> set (first_line (rev (x # a)))" "CHR ''}'' \<in> set (first_line b)"
        and tok: "(\<exists>w b'. b = w @ CHR ''$'' # b' \<and> w \<noteq> [] \<and> list_all is_word_char w)
          \<or> (\<exists>a' w. x # a = a' @ CHR ''$'' # w \<and> w \<noteq> [] \<and> list_all is_word_char w)"
        by blast+
      have tok': "(\<exists>w b'. b = w @ CHR ''$'' # b' \<and> w \<noteq> [] \<and> list_all is_word_char w)
          \<or> (\<exists>a' w. a = a' @ CHR ''$'' # w \<and> w \<noteq> [] \<and> list_all is_word_char w)"
        using tok
      proof
        assume "\<exists>w b'. b = w @ CHR ''$'' # b' \<and> w \<noteq> [] \<and> list_all is_word_char w"
        then show ?thesis ..
      next
        assume "\<exists>a' w. x # a = a' @ CHR ''$'' # w \<and> w \<noteq> [] \<and> list_all is_word_char w"
        then obtain a' w where
          e: "x # a = a' @ CHR ''$'' # w" and w: "w \<noteq> []" "list_all is_word_char w"
          by blast
        from e x obtain a'' where "a' = x # a''" by (cases a') auto
        with e have "a = a'' @ CHR ''$'' # w" by simp
        with w show ?thesis by blast
      qed
      have "CHR ''{'' \<in> set (first_line (rev a))"
      proof (rule ccontr)
        assume no: "CHR ''{'' \<notin> set (first_line (rev a))"
        from enc(1) have "CHR ''{'' \<in> set (first_line (rev a @ [x]))" by simp
        with no have nl: "CHR 0x0A \<notin> set a" and "CHR ''{'' \<in> set (rev a @ first_line [x])"
          by (auto simp: first_line_append split: if_splits)
        moreover from nl have "first_line (rev a) = rev a" by (simp add: first_line_all)
        ultimately have xb: "x = CHR ''{''"
          using no by (auto simp: first_line_Cons split: if_splits)
        from tok have "rmatch optional_section (x # xs) \<noteq> None"
        proof
          assume "\<exists>w b'. b = w @ CHR ''$'' # b' \<and> w \<noteq> [] \<and> list_all is_word_char w"
          then obtain w b' where
            b: "b = w @ CHR ''$'' # b'" and w: "w \<noteq> []" "list_all is_word_char w"
            by blast
          from enc(2) b words_plain [OF w(2)] have "CHR ''}'' \<in> set (first_line b')"
            by (auto simp: first_line_append first_line_Cons split: if_splits)
          from optional_section_complete [OF nl w this] xb xs b show ?thesis by simp
        next
          assume "\<exists>a' w. x # a = a' @ CHR ''$'' # w \<and> w \<noteq> [] \<and> list_all is_word_char w"
          then obtain a' w where
            e: "x # a = a' @ CHR ''$'' # w" and w: "w \<noteq> []" "list_all is_word_char w"
            by blast
          from e x obtain a'' where a'': "a' = x # a''" by (cases a') auto
          with e have a: "a = a'' @ CHR ''$'' # w" by simp
          with nl have "CHR 0x0A \<notin> set a''" by simp
          from optional_section_complete [OF this w enc(2)] xb xs a show ?thesis by simp
        qed
        with None show False by simp
      qed
      with enc(2) tok'
      show "(CHR ''{'' \<in> set (first_line (rev a)) \<and> CHR ''}'' \<in> set (first_line b))
       \<and> ((\<exists>w b'. b = w @ CHR ''$'' # b' \<and> w \<noteq> [] \<and> list_all is_word_char w)
          \<or> (\<exists>a' w. a = a' @ CHR ''$'' # w \<and> w \<noteq> [] \<and> list_all is_word_char w))"
        by blast
    qed
    with "2.hyps"(1) [OF None] None x show ?thesis by simp
  next
    case (Some k)
    from optional_section_match [OF Some] obtain m rest where
      s: "x # xs = m @ CHR ''}'' # rest" and k: "k = Suc (length m)"
      and nl: "CHR 0x0A \<notin> set m" and last: "CHR ''}'' \<notin> set (first_line rest)"
      by blast
    from s k have dr: "drop (length m) xs = rest"
      by (cases m) auto
    have "dollars_enclosed rest"
    proof (intro allI impI)
      fix a b
      assume rest: "rest = a @ CHR ''$'' # b"
      with s have s': "x # xs = (m @ CHR ''}'' # a) @ CHR ''$'' # b" by simp
      with "2.prems" have
        enc: "CHR ''{'' \<in> set (first_line (rev (m @ CHR ''}'' # a)))"
          "CHR ''}'' \<in> set (first_line b)"
        and tok: "(\<exists>w b'. b = w @ CHR ''$'' # b' \<and> w \<noteq> [] \<and> list_all is_word_char w)
          \<or> (\<exists>a' w. m @ CHR ''}'' # a = a' @ CHR ''$'' # w \<and> w \<noteq> []
                     \<and> list_all is_word_char w)"
        by blast+
      have na: "CHR 0x0A \<in> set a"
      proof (rule ccontr)
        assume "CHR 0x0A \<notin> set a"
        with rest enc(2) have "CHR ''}'' \<in> set (first_line rest)"
          by (simp add: first_line_append first_line_Cons)
        with last show False by simp
      qed
      then have e1: "CHR ''{'' \<in> set (first_line (rev a))"
        using enc(1) by (simp add: first_line_append)
      have tok': "(\<exists>w b'. b = w @ CHR ''$'' # b' \<and> w \<noteq> [] \<and> list_all is_word_char w)
          \<or> (\<exists>a' w. a = a' @ CHR ''$'' # w \<and> w \<noteq> [] \<and> list_all is_word_char w)"
        using tok
      proof
        assume "\<exists>w b'. b = w @ CHR ''$'' # b' \<and> w \<noteq> [] \<and> list_all is_word_char w"
        then show ?thesis ..
      next
        assume "\<exists>a' w. m @ CHR ''}'' # a = a' @ CHR ''$'' # w \<and> w \<noteq> []
                     \<and> list_all is_word_char w"
        then obtain a' w where
          e: "m @ CHR ''}'' # a = a' @ CHR ''$'' # w" and w: "w \<noteq> []" "list_all is_word_char w"
          by blast
        from words_plain [OF w(2)] have "CHR ''}'' \<notin> set (CHR ''$'' # w)" by simp
        from suffix_after [OF e this] obtain t where "a = t @ CHR ''$'' # w" ..
        with w show ?thesis by blast
      qed
      from e1 enc(2) tok'
      show "(CHR ''{'' \<in> set (first_line (rev a)) \<and> CHR ''}'' \<in> set (first_line b))
       \<and> ((\<exists>w b'. b = w @ CHR ''$'' # b' \<and> w \<noteq> [] \<and> list_all is_word_char w)
          \<or> (\<exists>a' w. a = a' @ CHR ''$'' # w \<and> w \<noteq> [] \<and> list_all is_word_char w))"
        by blast
    qed
    with "2.hyps"(3) [OF Some k] Some k dr show ?thesis by simp
  qed
qed

lemma names_words: "v \<in> set variable_names \<Longrightarrow> v \<noteq> [] \<and> list_all is_word_char v"
proof -
  have "list_all (\<lambda>v. v \<noteq> [] \<and> list_all is_word_char v) variable_names" by code_simp
  then show "v \<in> set variable_names \<Longrightarrow> v \<noteq> [] \<and> list_all is_word_char v"
    unfolding list_all_iff by blast
qed

lemma enclosed_split:
  "empty_holes_enclosed sub before ps \<Longrightarrow> ps = A @ Hole v # B \<Longrightarrow> sub v = None \<Longrightarrow>
   CHR ''{'' \<in> set (first_line (rev (flat sub (before @ A))))
   \<and> CHR ''}'' \<in> set (first_line (flat sub B))"
proof (induction ps arbitrary: before A)
  case Nil
  then show ?case by simp
next
  case (Cons p ps)
  show ?case
  proof (cases A)
    case Nil
    with Cons.prems show ?thesis by simp
  next
    case (Cons q A')
    with Cons.prems have "p = q" "ps = A' @ Hole v # B" "empty_holes_enclosed sub (before @ [p]) ps"
      by simp_all
    with Cons.IH [of "before @ [p]" A'] Cons.prems(3) Cons show ?thesis by simp
  qed
qed

lemma plain_prefix:
  assumes "x @ y = a @ c # b" and "c \<notin> set x"
  shows "\<exists>a'. a = x @ a' \<and> y = a' @ c # b"
proof -
  from assms(1) consider t where "x = a @ t" "t @ y = c # b"
    | t where "x @ t = a" "y = t @ c # b"
    by (auto simp: append_eq_append_conv2)
  then show ?thesis
  proof cases
    case 1
    with assms(2) show ?thesis by (cases t) auto
  next
    case 2
    then show ?thesis by auto
  qed
qed

lemma dollar_in_flat:
  assumes "\<forall>u t. sub u = Some t \<longrightarrow> CHR ''$'' \<notin> set t"
  shows "(\<forall>p\<in>set ps. case p of Text s \<Rightarrow> CHR ''$'' \<notin> set s | Hole u \<Rightarrow> CHR ''$'' \<notin> set u) \<Longrightarrow>
         flat sub ps = a @ CHR ''$'' # b \<Longrightarrow>
         \<exists>A v B. ps = A @ Hole v # B \<and> sub v = None
           \<and> ((a = flat sub A \<and> b = v @ CHR ''$'' # flat sub B)
              \<or> (a = flat sub A @ CHR ''$'' # v \<and> b = flat sub B))"
proof (induction ps arbitrary: a)
  case Nil
  then show ?case by simp
next
  case (Cons p ps)
  from Cons.prems(1) have ok: "\<forall>p\<in>set ps. case p of Text s \<Rightarrow> CHR ''$'' \<notin> set s
                                           | Hole u \<Rightarrow> CHR ''$'' \<notin> set u"
    by simp
  have plain: ?case if x: "CHR ''$'' \<notin> set (fill sub p)"
  proof -
    from Cons.prems(2) have "fill sub p @ flat sub ps = a @ CHR ''$'' # b" by simp
    from plain_prefix [OF this x] obtain a' where
      a: "a = fill sub p @ a'" and f: "flat sub ps = a' @ CHR ''$'' # b"
      by blast
    from Cons.IH [OF ok f] obtain A v B where
      "ps = A @ Hole v # B" "sub v = None"
      "(a' = flat sub A \<and> b = v @ CHR ''$'' # flat sub B)
         \<or> (a' = flat sub A @ CHR ''$'' # v \<and> b = flat sub B)"
      by blast
    with a have "p # ps = (p # A) @ Hole v # B \<and> sub v = None
      \<and> ((a = flat sub (p # A) \<and> b = v @ CHR ''$'' # flat sub B)
         \<or> (a = flat sub (p # A) @ CHR ''$'' # v \<and> b = flat sub B))"
      by auto
    then show ?thesis by blast
  qed
  show ?case
  proof (cases p)
    case (Text s)
    with Cons.prems(1) have "CHR ''$'' \<notin> set (fill sub p)" by simp
    then show ?thesis by (rule plain)
  next
    case (Hole u)
    with Cons.prems(1) have u: "CHR ''$'' \<notin> set u" by simp
    show ?thesis
    proof (cases "sub u")
      case (Some x)
      with assms have "CHR ''$'' \<notin> set x" by blast
      with Hole Some have "CHR ''$'' \<notin> set (fill sub p)" by simp
      then show ?thesis by (rule plain)
    next
      case None
      with Hole Cons.prems(2)
      have e: "CHR ''$'' # u @ CHR ''$'' # flat sub ps = a @ CHR ''$'' # b"
        by (simp add: placeholder_def)
      show ?thesis
      proof (cases a)
        case Nil
        with e have "b = u @ CHR ''$'' # flat sub ps" by simp
        with Nil Hole None have "p # ps = [] @ Hole u # ps \<and> sub u = None
          \<and> ((a = flat sub [] \<and> b = u @ CHR ''$'' # flat sub ps)
             \<or> (a = flat sub [] @ CHR ''$'' # u \<and> b = flat sub ps))"
          by simp
        then show ?thesis by blast
      next
        case (Cons c a1)
        with e have c: "c = CHR ''$''" and e1: "u @ CHR ''$'' # flat sub ps = a1 @ CHR ''$'' # b"
          by auto
        from plain_prefix [OF e1 u] obtain a2 where
          a1: "a1 = u @ a2" and e2: "CHR ''$'' # flat sub ps = a2 @ CHR ''$'' # b"
          by blast
        show ?thesis
        proof (cases a2)
          case Nil
          with e2 have "b = flat sub ps" by simp
          with Nil a1 c Cons Hole None have "p # ps = [] @ Hole u # ps \<and> sub u = None
            \<and> ((a = flat sub [] \<and> b = u @ CHR ''$'' # flat sub ps)
               \<or> (a = flat sub [] @ CHR ''$'' # u \<and> b = flat sub ps))"
            by simp
          then show ?thesis by blast
        next
          case (Cons d a3)
          with e2 have f: "flat sub ps = a3 @ CHR ''$'' # b" and d: "d = CHR ''$''" by simp_all
          from Cons.IH [OF ok f] obtain A v B where
            "ps = A @ Hole v # B" "sub v = None"
            "(a3 = flat sub A \<and> b = v @ CHR ''$'' # flat sub B)
               \<or> (a3 = flat sub A @ CHR ''$'' # v \<and> b = flat sub B)"
            by blast
          with a1 c d Cons \<open>a = c # a1\<close> Hole None
          have "p # ps = (p # A) @ Hole v # B \<and> sub v = None
            \<and> ((a = flat sub (p # A) \<and> b = v @ CHR ''$'' # flat sub B)
               \<or> (a = flat sub (p # A) @ CHR ''$'' # v \<and> b = flat sub B))"
            by (auto simp: placeholder_def)
          then show ?thesis by blast
        qed
      qed
    qed
  qed
qed

lemma pieces_enclosed:
  assumes ok: "list_all piece_ok ps"
    and vals: "\<forall>u t. sub u = Some t \<longrightarrow> CHR ''$'' \<notin> set t"
    and enc: "empty_holes_enclosed sub [] ps"
  shows "dollars_enclosed (flat sub ps)"
proof (intro allI impI)
  fix a b
  assume e: "flat sub ps = a @ CHR ''$'' # b"
  have pok: "\<forall>p\<in>set ps. case p of Text s \<Rightarrow> CHR ''$'' \<notin> set s | Hole u \<Rightarrow> CHR ''$'' \<notin> set u"
  proof
    fix p
    assume "p \<in> set ps"
    with ok have "piece_ok p" unfolding list_all_iff by blast
    then show "case p of Text s \<Rightarrow> CHR ''$'' \<notin> set s | Hole u \<Rightarrow> CHR ''$'' \<notin> set u"
      by (cases p) (auto simp: variable_names_plain)
  qed
  from dollar_in_flat [OF vals pok e] obtain A v B where
    ps: "ps = A @ Hole v # B" and v: "sub v = None"
    and c: "(a = flat sub A \<and> b = v @ CHR ''$'' # flat sub B)
              \<or> (a = flat sub A @ CHR ''$'' # v \<and> b = flat sub B)"
    by blast
  from ps ok have "piece_ok (Hole v)" by (simp add: list_all_iff)
  then have "v \<in> set variable_names" by simp
  from names_words [OF this] have w: "v \<noteq> []" "list_all is_word_char v" by simp_all
  note wp = words_plain [OF w(2)]
  from enclosed_split [OF enc ps v]
  have l: "CHR ''{'' \<in> set (first_line (rev (flat sub A)))"
    and r: "CHR ''}'' \<in> set (first_line (flat sub B))"
    by simp_all
  from c show "(CHR ''{'' \<in> set (first_line (rev a)) \<and> CHR ''}'' \<in> set (first_line b))
       \<and> ((\<exists>w b'. b = w @ CHR ''$'' # b' \<and> w \<noteq> [] \<and> list_all is_word_char w)
          \<or> (\<exists>a' w. a = a' @ CHR ''$'' # w \<and> w \<noteq> [] \<and> list_all is_word_char w))"
  proof
    assume h: "a = flat sub A \<and> b = v @ CHR ''$'' # flat sub B"
    with r wp have "CHR ''}'' \<in> set (first_line b)"
      by (simp add: first_line_append first_line_Cons)
    with h l w show ?thesis by blast
  next
    assume h: "a = flat sub A @ CHR ''$'' # v \<and> b = flat sub B"
    with l wp have "CHR ''{'' \<in> set (first_line (rev a))"
      by (simp add: first_line_append first_line_Cons)
    with h r w show ?thesis by blast
  qed
qed

lemma no_dollar_no_placeholder: "CHR ''$'' \<notin> set s \<Longrightarrow> \<not> has_placeholder s"
  by (induction s) (auto simp: placeholder_token_def)

lemma clean_optional_subset:
  "set (clean_optional_from_format s) \<subseteq> set (re_sub optional_section [] s)"
  by (auto simp: clean_optional_filter)

text \<open>
  C3 as amended. Take a template whose dollar signs are those of placeholders of defined
  variables (\<open>piece_ok\<close>), records on which the variables that the template names resolve,
  to values whose text holds no dollar sign, and let no run of the substituted template
  spell the name of a variable. Then \<open>apply_format\<close> returns the template with the
  placeholders of the non-empty values replaced by the text of the values, cleaned of its
  optional sections. If moreover every placeholder whose value is empty has an opening
  brace before it and a closing brace after it on its line, as it has inside an optional
  section, the string returned holds no dollar sign, hence no placeholder token.
\<close>

theorem placeholders_filled_or_elided:
  assumes "list_all piece_ok ps"
    and "list_all (\<lambda>v. resolve lookup scene_data file_data v = Some (Inr (value v))
                       \<and> (truthy (value v) \<longrightarrow> CHR ''$'' \<notin> set (py_str (value v))))
           (find_variables (template_of ps))"
    and "list_all (\<lambda>seg. substituted value seg \<notin> set variable_names) (segments ps)"
  shows "apply_format (template_of ps) lookup scene_data file_data
           = Some (Inr (clean_optional_from_format (substituted value ps)))
       \<and> (empty_holes_enclosed (texts value) [] ps \<longrightarrow>
            CHR ''$'' \<notin> set (clean_optional_from_format (substituted value ps))
            \<and> \<not> has_placeholder (clean_optional_from_format (substituted value ps)))"
proof (intro conjI impI)
  show "apply_format (template_of ps) lookup scene_data file_data
           = Some (Inr (clean_optional_from_format (substituted value ps)))"
    using assms by (rule apply_format_pieces)
next
  assume enc: "empty_holes_enclosed (texts value) [] ps"
  let ?vs = "find_variables (template_of ps)"
  define G where "G = restrict_map (texts value) (set ?vs)"
  have vals: "\<forall>u t. G u = Some t \<longrightarrow> CHR ''$'' \<notin> set t"
    using assms(2)
    by (auto simp: G_def restrict_map_def texts_def list_all_iff split: if_splits)
  have GF: "G u = texts value u" if "Hole u \<in> set ps" for u
  proof -
    from that assms(1) have "piece_ok (Hole u)" unfolding list_all_iff by blast
    then have "u \<in> set variable_names" by simp
    with that have "u \<in> set ?vs" by (rule hole_found)
    then show ?thesis by (simp add: G_def)
  qed
  have same: "flat G seg = flat (texts value) seg" if "set seg \<subseteq> set ps" for seg
    using that GF by (intro flat_cong) auto
  have "empty_holes_enclosed G before after"
    if "empty_holes_enclosed (texts value) before after" "set before \<union> set after \<subseteq> set ps"
    for before after
    using that
  proof (induction after arbitrary: before)
    case Nil
    show ?case by simp
  next
    case (Cons p after)
    from Cons.prems(2) have s: "set before \<subseteq> set ps" "set after \<subseteq> set ps" "p \<in> set ps"
      by auto
    from Cons.prems have "empty_holes_enclosed G (before @ [p]) after"
      by (intro Cons.IH) auto
    moreover have "case p of Text s \<Rightarrow> True
       | Hole v \<Rightarrow> G v = None \<longrightarrow>
             CHR ''{'' \<in> set (first_line (rev (flat G before)))
             \<and> CHR ''}'' \<in> set (first_line (flat G after))"
      using Cons.prems(1) s GF same [OF s(1)] same [OF s(2)]
      by (cases p) auto
    ultimately show ?case by simp
  qed
  from this [OF enc] have "empty_holes_enclosed G [] ps" by simp
  from pieces_enclosed [OF assms(1) vals this] have "dollars_enclosed (flat G ps)" .
  then have "CHR ''$'' \<notin> set (re_sub optional_section [] (flat G ps))" by (rule erase_enclosed)
  moreover have "flat G ps = substituted value ps"
    using same [of ps] by (simp add: substituted_def)
  ultimately have "CHR ''$'' \<notin> set (re_sub optional_section [] (substituted value ps))"
    by simp
  with clean_optional_subset [of "substituted value ps"]
  show "CHR ''$'' \<notin> set (clean_optional_from_format (substituted value ps))" by blast
  then show "\<not> has_placeholder (clean_optional_from_format (substituted value ps))"
    by (rule no_dollar_no_placeholder)
qed

theorem placeholders_filled_or_elided_witness:
  "list_all piece_ok director_template
   \<and> list_all (\<lambda>v. resolve no_studio (PDict [(''title'', PStr ''Show'')]) (PDict []) v
                     = Some (Inr (title_only v))
                   \<and> (truthy (title_only v) \<longrightarrow> CHR ''$'' \<notin> set (py_str (title_only v))))
        (find_variables (template_of director_template))
   \<and> list_all (\<lambda>seg. substituted title_only seg \<notin> set variable_names)
        (segments director_template)
   \<and> empty_holes_enclosed (texts title_only) [] director_template
   \<and> template_of director_template = ''{$director$ - }$title$''
   \<and> substituted title_only director_template = ''{$director$ - }Show''
   \<and> apply_format ''{$director$ - }$title$'' no_studio (PDict [(''title'', PStr ''Show'')])
        (PDict []) = Some (Inr ''Show'')
   \<and> clean_optional_from_format ''{$director$ - }Show'' = ''Show''
   \<and> \<not> has_placeholder ''Show''"
proof -
  let ?scene = "PDict [(''title'', PStr ''Show'')]"
  have a: "list_all piece_ok director_template" by code_simp
  have b: "list_all (\<lambda>v. resolve no_studio ?scene (PDict []) v = Some (Inr (title_only v))
                   \<and> (truthy (title_only v) \<longrightarrow> CHR ''$'' \<notin> set (py_str (title_only v))))
        (find_variables (template_of director_template))"
    by code_simp
  have c: "list_all (\<lambda>seg. substituted title_only seg \<notin> set variable_names)
        (segments director_template)"
    by code_simp
  have d: "empty_holes_enclosed (texts title_only) [] director_template" by code_simp
  have e: "template_of director_template = ''{$director$ - }$title$''" by code_simp
  have f: "substituted title_only director_template = ''{$director$ - }Show''" by code_simp
  note t = placeholders_filled_or_elided [OF a b c]
  from t e f
  have g: "apply_format ''{$director$ - }$title$'' no_studio ?scene (PDict [])
             = Some (Inr (clean_optional_from_format ''{$director$ - }Show''))"
    by simp
  have h: "clean_optional_from_format ''{$director$ - }Show'' = ''Show''" by code_simp
  from t d f h have i: "\<not> has_placeholder ''Show''" by simp
  from g h have g': "apply_format ''{$director$ - }$title$'' no_studio ?scene (PDict [])
             = Some (Inr ''Show'')"
    by simp
  from a b c d e f g' h i show ?thesis by (intro conjI)
qed


section \<open>Sanitising the file name\<close>

lemma re_sub_one_of: "re_sub [(OneOf cs, Once)] [] s = filter (\<lambda>c. c \<notin> set cs) s"
  by (induction s) auto

lemma set_re_sub: "set (re_sub r repl s) \<subseteq> set repl \<union> set s"
proof (induction r repl s rule: re_sub.induct)
  case (1 r repl)
  then show ?case by (auto split: option.splits)
next
  case (2 r repl x xs)
  show ?case
  proof (cases "rmatch r (x # xs)")
    case None
    with 2 show ?thesis by auto
  next
    case (Some n)
    show ?thesis
    proof (cases n)
      case 0
      with Some 2 show ?thesis by auto
    next
      case (Suc k)
      with Some 2 have "set (re_sub r repl (drop k xs)) \<subseteq> set repl \<union> set (drop k xs)" by simp
      moreover have "set (drop k xs) \<subseteq> set xs" by (rule set_drop_subset)
      ultimately show ?thesis using Some Suc by auto
    qed
  qed
qed

lemma space_not_unsafe: "CHR '' '' \<notin> set unsafe_characters"
  by (simp add: unsafe_characters_def)

lemma sanitize_no_unsafe:
  assumes "\<not> allow_unsafe_characters config"
  shows "set (sanitize_file_name config raw) \<inter> set unsafe_characters = {}"
proof -
  let ?f = "filter (\<lambda>c. c \<notin> set unsafe_characters) raw"
  have f: "set ?f \<inter> set unsafe_characters = {}" by auto
  show ?thesis
  proof (cases "remove_extra_spaces_from_file_name config")
    case False
    with assms f show ?thesis
      by (simp add: sanitize_file_name_def unsafe_pattern_def re_sub_one_of)
  next
    case True
    have "set (re_sub spaces_pattern '' '' ?f) \<subseteq> set '' '' \<union> set ?f" by (rule set_re_sub)
    with f space_not_unsafe have "set (re_sub spaces_pattern '' '' ?f) \<inter> set unsafe_characters = {}"
      by auto
    with assms True show ?thesis
      by (simp add: sanitize_file_name_def unsafe_pattern_def re_sub_one_of)
  qed
qed

lemma unsafe_characters_set:
  "set unsafe_characters =
     {CHR ''<'', CHR ''>'', CHR '':'', CHR 0x22, CHR ''/'', CHR 0x5C, CHR ''|'', CHR ''?'',
      CHR ''*''}"
  by (simp add: unsafe_characters_def)

text \<open>
  Claim C8: with unsafe characters disallowed, \<open>get_new_file_name\<close> removes every
  occurrence of the nine characters \<^verbatim>\<open>< > : " / \ | ? *\<close> from the formatted name and puts
  nothing in their place. The formatted name is the one built from the configured file
  name template (without a template the source returns the base name of the file and
  formats nothing). The name returned is the formatted name with exactly these nine
  characters filtered out (then, if asked for, with its runs of white space collapsed),
  and none of the nine occurs in it. A title holding all nine of them,
  \<^verbatim>\<open>a<b>c:d"e/f\g|h?i*j\<close>, gives \<open>abcdefghij\<close>, and \<open>A/B:C\<close> gives \<open>ABC\<close>.
\<close>

theorem unsafe_characters_removed:
  assumes "\<not> allow_unsafe_characters config"
    and "default_file_name_format config \<noteq> []"
    and "get_new_file_name config env scene_data file_data index = Some (Inr name)"
  shows "\<exists>raw cleaned.
           indexed_file_name config env scene_data file_data index = Some (Inr raw)
         \<and> name = PStr cleaned
         \<and> cleaned =
             (if remove_extra_spaces_from_file_name config
              then re_sub spaces_pattern '' ''
                     (filter (\<lambda>c. c \<notin> {CHR ''<'', CHR ''>'', CHR '':'', CHR 0x22, CHR ''/'',
                                         CHR 0x5C, CHR ''|'', CHR ''?'', CHR ''*''}) raw)
              else filter (\<lambda>c. c \<notin> {CHR ''<'', CHR ''>'', CHR '':'', CHR 0x22, CHR ''/'',
                                      CHR 0x5C, CHR ''|'', CHR ''?'', CHR ''*''}) raw)
         \<and> CHR ''<'' \<notin> set cleaned \<and> CHR ''>'' \<notin> set cleaned \<and> CHR '':'' \<notin> set cleaned
         \<and> CHR 0x22 \<notin> set cleaned \<and> CHR ''/'' \<notin> set cleaned \<and> CHR 0x5C \<notin> set cleaned
         \<and> CHR ''|'' \<notin> set cleaned \<and> CHR ''?'' \<notin> set cleaned \<and> CHR ''*'' \<notin> set cleaned"
proof -
  from assms(2,3) obtain raw where
    raw: "indexed_file_name config env scene_data file_data index = Some (Inr raw)"
    and name: "name = PStr (sanitize_file_name config raw)"
    by (auto simp: get_new_file_name_def bindc_ret_iff ret_def)
  let ?cleaned = "sanitize_file_name config raw"
  have eq: "?cleaned =
             (if remove_extra_spaces_from_file_name config
              then re_sub spaces_pattern '' ''
                     (filter (\<lambda>c. c \<notin> {CHR ''<'', CHR ''>'', CHR '':'', CHR 0x22, CHR ''/'',
                                         CHR 0x5C, CHR ''|'', CHR ''?'', CHR ''*''}) raw)
              else filter (\<lambda>c. c \<notin> {CHR ''<'', CHR ''>'', CHR '':'', CHR 0x22, CHR ''/'',
                                      CHR 0x5C, CHR ''|'', CHR ''?'', CHR ''*''}) raw)"
    using assms(1)
    by (simp add: sanitize_file_name_def unsafe_pattern_def re_sub_one_of unsafe_characters_set)
  from sanitize_no_unsafe [OF assms(1), of raw]
  have "\<forall>c \<in> {CHR ''<'', CHR ''>'', CHR '':'', CHR 0x22, CHR ''/'', CHR 0x5C, CHR ''|'',
                 CHR ''?'', CHR ''*''}. c \<notin> set ?cleaned"
    unfolding unsafe_characters_set by blast
  then have no: "CHR ''<'' \<notin> set ?cleaned" "CHR ''>'' \<notin> set ?cleaned" "CHR '':'' \<notin> set ?cleaned"
    "CHR 0x22 \<notin> set ?cleaned" "CHR ''/'' \<notin> set ?cleaned" "CHR 0x5C \<notin> set ?cleaned"
    "CHR ''|'' \<notin> set ?cleaned" "CHR ''?'' \<notin> set ?cleaned" "CHR ''*'' \<notin> set ?cleaned"
    by simp_all
  show ?thesis
    by (rule exI [of _ raw], rule exI [of _ ?cleaned]) (intro conjI raw name eq no)
qed

theorem unsafe_characters_removed_witness:
  "\<not> allow_unsafe_characters (demo_config\<lparr>default_file_name_format := ''$title$''\<rparr>)
   \<and> default_file_name_format (demo_config\<lparr>default_file_name_format := ''$title$''\<rparr>) \<noteq> []
   \<and> get_new_file_name (demo_config\<lparr>default_file_name_format := ''$title$''\<rparr>) (demo_env [])
       (PDict [(''title'', PStr all_unsafe_title)]) demo_file 0 = Some (Inr (PStr ''abcdefghij''))
   \<and> indexed_file_name (demo_config\<lparr>default_file_name_format := ''$title$''\<rparr>) (demo_env [])
       (PDict [(''title'', PStr all_unsafe_title)]) demo_file 0 = Some (Inr all_unsafe_title)
   \<and> filter (\<lambda>c. c \<notin> {CHR ''<'', CHR ''>'', CHR '':'', CHR 0x22, CHR ''/'', CHR 0x5C, CHR ''|'',
                        CHR ''?'', CHR ''*''}) all_unsafe_title = ''abcdefghij''
   \<and> get_new_file_name (demo_config\<lparr>default_file_name_format := ''$title$''\<rparr>) (demo_env [])
       (PDict [(''title'', PStr ''A/B:C'')]) demo_file 0 = Some (Inr (PStr ''ABC''))"
proof -
  let ?c = "demo_config\<lparr>default_file_name_format := ''$title$''\<rparr>"
  let ?s = "PDict [(''title'', PStr all_unsafe_title)]"
  have a: "\<not> allow_unsafe_characters ?c" by (simp add: demo_config_def)
  have b: "default_file_name_format ?c \<noteq> []" by simp
  have c: "get_new_file_name ?c (demo_env []) ?s demo_file 0 = Some (Inr (PStr ''abcdefghij''))"
    by code_simp
  have d: "indexed_file_name ?c (demo_env []) ?s demo_file 0 = Some (Inr all_unsafe_title)"
    by code_simp
  have r: "\<not> remove_extra_spaces_from_file_name ?c" by (simp add: demo_config_def)
  from unsafe_characters_removed [OF a b c] d r
  have e: "filter (\<lambda>c. c \<notin> {CHR ''<'', CHR ''>'', CHR '':'', CHR 0x22, CHR ''/'', CHR 0x5C,
                              CHR ''|'', CHR ''?'', CHR ''*''}) all_unsafe_title = ''abcdefghij''"
    by auto
  have f: "get_new_file_name ?c (demo_env []) (PDict [(''title'', PStr ''A/B:C'')]) demo_file 0
             = Some (Inr (PStr ''ABC''))"
    by code_simp
  from a b c d e f show ?thesis by (intro conjI)
qed


section \<open>The duplicate suffix\<close>

lemma rsplit1_no_dot: "CHR ''.'' \<notin> set s \<Longrightarrow> rsplit1 s = [s]"
  by (simp add: rsplit1_def)

lemma rsplit1_dot:
  assumes "CHR ''.'' \<in> set s"
  shows "\<exists>base ext. rsplit1 s = [base, ext] \<and> s = base @ ''.'' @ ext \<and> CHR ''.'' \<notin> set ext"
proof -
  let ?P = "\<lambda>c. c \<noteq> CHR ''.''"
  let ?tw = "takeWhile ?P (rev s)"
  let ?dw = "dropWhile ?P (rev s)"
  from assms have ne: "?dw \<noteq> []" by (simp add: dropWhile_eq_Nil_conv)
  then have "\<not> ?P (hd ?dw)" by (rule hd_dropWhile)
  with ne have dw: "?dw = CHR ''.'' # tl ?dw" by (cases ?dw) auto
  have "rev s = ?tw @ ?dw" by simp
  then have "rev s = ?tw @ CHR ''.'' # tl ?dw" using dw by simp
  then have "rev (rev s) = rev (?tw @ CHR ''.'' # tl ?dw)" by (rule arg_cong)
  then have s: "s = rev (tl ?dw) @ ''.'' @ rev ?tw" by simp
  have "CHR ''.'' \<notin> set (rev ?tw)" by (auto dest: set_takeWhileD)
  with s assms show ?thesis by (auto simp: rsplit1_def)
qed

lemma indexed_file_name_no_dot:
  assumes "index \<noteq> 0"
    and "with_index file_data index = Inr file'"
    and "apply_format (default_file_name_format config) (find_studio env) scene_data file'
           = Some (Inr file_name)"
    and "apply_format (duplicate_file_suffix config) (find_studio env) scene_data file'
           = Some (Inr duplicate_suffix)"
    and "CHR ''.'' \<notin> set file_name"
  shows "indexed_file_name config env scene_data file_data index = Some (Inl IndexError)"
  using assms
  by (simp add: indexed_file_name_def bindc_def lift_def ret_def py_index_def rsplit1_no_dot)

lemma indexed_file_name_splice:
  assumes "index \<noteq> 0"
    and "with_index file_data index = Inr file'"
    and "apply_format (default_file_name_format config) (find_studio env) scene_data file'
           = Some (Inr file_name)"
    and "apply_format (duplicate_file_suffix config) (find_studio env) scene_data file'
           = Some (Inr duplicate_suffix)"
    and "rsplit1 file_name = [base_name, extension]"
  shows "indexed_file_name config env scene_data file_data index
           = Some (Inr (base_name @ duplicate_suffix @ ''.'' @ extension))"
  using assms
  by (simp add: indexed_file_name_def bindc_def lift_def ret_def py_index_def)

text \<open>
  Claim C10: when the duplicate index is above 0, \<open>get_new_file_name\<close> needs a dot in the
  formatted file name. With a dot, the duplicate suffix is spliced between the part before
  the last dot and the part behind it; with none, \<^verbatim>\<open>rsplit(".", 1)[1]\<close> raises an
  \<^verbatim>\<open>IndexError\<close> and no name is returned. (The hypotheses say that the file record is a
  dictionary and that formatting the name and the suffix themselves returned.)
\<close>

theorem duplicate_suffix_needs_dot:
  assumes "index \<noteq> 0"
    and "default_file_name_format config \<noteq> []"
    and "with_index file_data index = Inr file'"
    and "apply_format (default_file_name_format config) (find_studio env) scene_data file'
           = Some (Inr file_name)"
    and "apply_format (duplicate_file_suffix config) (find_studio env) scene_data file'
           = Some (Inr duplicate_suffix)"
  shows "(CHR ''.'' \<notin> set file_name \<longrightarrow>
            get_new_file_name config env scene_data file_data index = Some (Inl IndexError))
       \<and> (CHR ''.'' \<in> set file_name \<longrightarrow>
            (\<exists>base_name extension.
                file_name = base_name @ ''.'' @ extension \<and> CHR ''.'' \<notin> set extension
              \<and> get_new_file_name config env scene_data file_data index
                  = Some (Inr (PStr (sanitize_file_name config
                       (base_name @ duplicate_suffix @ ''.'' @ extension))))))"
proof (intro conjI impI)
  assume "CHR ''.'' \<notin> set file_name"
  from indexed_file_name_no_dot [OF assms(1,3,4,5) this] assms(2)
  show "get_new_file_name config env scene_data file_data index = Some (Inl IndexError)"
    by (simp add: get_new_file_name_def bindc_def)
next
  assume "CHR ''.'' \<in> set file_name"
  from rsplit1_dot [OF this] obtain base_name extension where
    r: "rsplit1 file_name = [base_name, extension]"
    and f: "file_name = base_name @ ''.'' @ extension" "CHR ''.'' \<notin> set extension"
    by blast
  from indexed_file_name_splice [OF assms(1,3,4,5) r] assms(2)
  have "get_new_file_name config env scene_data file_data index
          = Some (Inr (PStr (sanitize_file_name config
               (base_name @ duplicate_suffix @ ''.'' @ extension))))"
    by (simp add: get_new_file_name_def bindc_def ret_def)
  with f show "\<exists>base_name extension.
                file_name = base_name @ ''.'' @ extension \<and> CHR ''.'' \<notin> set extension
              \<and> get_new_file_name config env scene_data file_data index
                  = Some (Inr (PStr (sanitize_file_name config
                       (base_name @ duplicate_suffix @ ''.'' @ extension))))"
    by blast
qed

theorem duplicate_suffix_needs_dot_witness:
  "(1::nat) \<noteq> 0
   \<and> default_file_name_format (demo_config\<lparr>default_file_name_format := ''$title$''\<rparr>) \<noteq> []
   \<and> with_index demo_file 1 = Inr (PDict [(''id'', PStr ''12''), (''path'', PStr ''/videos/old.mp4''),
        (''basename'', PStr ''old.mp4''), (''index'', PInt 1)])
   \<and> CHR ''.'' \<notin> set ''Show''
   \<and> get_new_file_name (demo_config\<lparr>default_file_name_format := ''$title$''\<rparr>) (demo_env [])
       demo_scene demo_file 1 = Some (Inl IndexError)"
proof -
  let ?c = "demo_config\<lparr>default_file_name_format := ''$title$''\<rparr>"
  let ?f = "PDict [(''id'', PStr ''12''), (''path'', PStr ''/videos/old.mp4''),
        (''basename'', PStr ''old.mp4''), (''index'', PInt 1)]"
  have a: "(1::nat) \<noteq> 0" by simp
  have b: "default_file_name_format ?c \<noteq> []" by simp
  have c: "with_index demo_file 1 = Inr ?f" by code_simp
  have d: "apply_format (default_file_name_format ?c) (find_studio (demo_env [])) demo_scene ?f
             = Some (Inr ''Show'')" by code_simp
  have e: "apply_format (duplicate_file_suffix ?c) (find_studio (demo_env [])) demo_scene ?f
             = Some (Inr '' (1)'')" by code_simp
  have g: "CHR ''.'' \<notin> set ''Show''" by simp
  from duplicate_suffix_needs_dot [OF a b c d e] g
  have "get_new_file_name ?c (demo_env []) demo_scene demo_file 1 = Some (Inl IndexError)"
    by blast
  with a b c g show ?thesis by (intro conjI)
qed


section \<open>The chain of parent studios\<close>

lemma str_items_map: "str_items (map PStr xs) = Inr xs"
  by (induction xs) auto

lemma parent_chain_loop_names:
  assumes "chain_names lookup n studio = Some names"
  shows "\<exists>name rest. names = rest @ [name]
           \<and> (\<forall>dflt. py_get studio ''name'' dflt = Inr (PStr name))
           \<and> (\<forall>acc. parent_chain_loop lookup studio acc = Some (Inr (acc @ map PStr (rev rest))))"
  using assms
proof (induction n arbitrary: studio names)
  case 0
  then show ?case by simp
next
  case (Suc n)
  from Suc.prems obtain d name where
    studio: "studio = PDict d" and name: "map_of d ''name'' = Some (PStr name)"
    by (auto split: pyval.splits option.splits)
  show ?case
  proof (cases "\<exists>pref. map_of d ''parent_studio'' = Some pref \<and> truthy pref")
    case False
    with Suc.prems studio name have names: "names = [name]"
      by (auto split: option.splits)
    from False studio have "\<forall>acc. parent_chain_loop lookup studio acc = Some (Inr acc)"
      by (subst parent_chain_loop.simps) (auto split: option.splits)
    with names studio name show ?thesis by auto
  next
    case True
    then obtain pref where
      pref: "map_of d ''parent_studio'' = Some pref" "truthy pref" by blast
    with Suc.prems studio name obtain next_studio names' where
      lk: "lookup pref = Inr next_studio"
      and ch: "chain_names lookup n next_studio = Some names'"
      and names: "names = names' @ [name]"
      by (auto split: sum.splits)
    from Suc.IH [OF ch] obtain name' rest' where
      n': "names' = rest' @ [name']"
      and g: "\<forall>dflt. py_get next_studio ''name'' dflt = Inr (PStr name')"
      and l: "\<forall>acc. parent_chain_loop lookup next_studio acc
                = Some (Inr (acc @ map PStr (rev rest')))"
      by blast
    have "\<forall>acc. parent_chain_loop lookup studio acc = Some (Inr (acc @ map PStr (rev names')))"
    proof
      fix acc
      have "parent_chain_loop lookup studio acc
              = parent_chain_loop lookup next_studio (acc @ [PStr name'])"
        using studio pref lk g by (subst parent_chain_loop.simps) simp
      with l n' show "parent_chain_loop lookup studio acc
              = Some (Inr (acc @ map PStr (rev names')))" by simp
    qed
    with names studio name show ?thesis by auto
  qed
qed

lemma studio_chain_of_names:
  assumes "py_get scene ''studio'' (PDict []) = Inr studio"
    and "chain_names lookup n studio = Some names"
  shows "get_parent_studio_chain lookup scene = Some (Inr (PStr (join ''/'' names)))"
proof -
  from parent_chain_loop_names [OF assms(2)] obtain name rest where
    names: "names = rest @ [name]"
    and g: "py_get studio ''name'' (PStr []) = Inr (PStr name)"
    and l: "parent_chain_loop lookup studio [PStr name]
              = Some (Inr ([PStr name] @ map PStr (rev rest)))"
    by blast
  have "rev ([PStr name] @ map PStr (rev rest)) = map PStr names"
    using names by (simp add: rev_map)
  with assms(1) g l show ?thesis
    by (simp add: get_parent_studio_chain_def bindc_def lift_def ret_def str_items_map)
qed

text \<open>
  Claim C9: for a scene whose studio heads a finite parent chain, the variable
  \<open>parent_studio_chain\<close> is the names of the chain joined with \<^verbatim>\<open>/\<close> from the root to the
  leaf, and the loop of lookups returns. For \<open>A\<close> with parent \<open>B\<close> with parent \<open>C\<close> it is
  \<open>C/B/A\<close>.
\<close>

theorem parent_chain_joined_root_to_leaf:
  assumes "py_get scene ''studio'' (PDict []) = Inr studio"
    and "chain_names lookup n studio = Some names"
  shows "get_parent_studio_chain lookup scene = Some (Inr (PStr (join ''/'' names)))"
  using assms by (rule studio_chain_of_names)

theorem parent_chain_joined_root_to_leaf_witness:
  "py_get (PDict [(''studio'', studio_A)]) ''studio'' (PDict []) = Inr studio_A
   \<and> chain_names demo_catalog 3 studio_A = Some [''C'', ''B'', ''A'']
   \<and> get_parent_studio_chain demo_catalog (PDict [(''studio'', studio_A)])
       = Some (Inr (PStr ''C/B/A''))"
proof -
  have a: "py_get (PDict [(''studio'', studio_A)]) ''studio'' (PDict []) = Inr studio_A"
    by simp
  have b: "chain_names demo_catalog 3 studio_A = Some [''C'', ''B'', ''A'']"
    by code_simp
  have c: "join ''/'' [''C'', ''B'', ''A''] = ''C/B/A''" by simp
  from parent_chain_joined_root_to_leaf [OF a b] c a b show ?thesis by simp
qed


section \<open>Resolving the variables\<close>






























section \<open>Related files\<close>

lemma related_step_events:
  "\<exists>evs. events (fst (related_step env dry nd ns rf s)) = events s @ evs
         \<and> duplicate_index (fst (related_step env dry nd ns rf s)) = duplicate_index s
         \<and> (dry \<longrightarrow> world (fst (related_step env dry nd ns rf s)) = world s
                   \<and> list_all quiet evs \<and> snd (related_step env dry nd ns rf s) = None)"
  by (auto simp: related_step_def Let_def emit_def logm_def split: sum.splits py_error.splits)

lemma related_loop_events:
  "\<exists>evs. events (fst (related_loop env dry nd ns rfs s)) = events s @ evs
         \<and> duplicate_index (fst (related_loop env dry nd ns rfs s)) = duplicate_index s
         \<and> (dry \<longrightarrow> world (fst (related_loop env dry nd ns rfs s)) = world s
                   \<and> list_all quiet evs \<and> snd (related_loop env dry nd ns rfs s) = None)"
proof (induction rfs arbitrary: s)
  case Nil
  show ?case by simp
next
  case (Cons rf rest)
  obtain s' r where st: "related_step env dry nd ns rf s = (s', r)"
    by (cases "related_step env dry nd ns rf s")
  from related_step_events [of env dry nd ns rf s]
  have "\<exists>evs. events s' = events s @ evs \<and> duplicate_index s' = duplicate_index s
          \<and> (dry \<longrightarrow> world s' = world s \<and> list_all quiet evs \<and> r = None)"
    unfolding st by simp
  then obtain evs where
    e1: "events s' = events s @ evs" "duplicate_index s' = duplicate_index s"
    and d1: "dry \<longrightarrow> world s' = world s \<and> list_all quiet evs \<and> r = None"
    by blast
  show ?case
  proof (cases r)
    case (Some e)
    with st e1 d1 show ?thesis by auto
  next
    case None
    from Cons [of s'] obtain evs' where
      e2: "events (fst (related_loop env dry nd ns rest s')) = events s' @ evs'"
        "duplicate_index (fst (related_loop env dry nd ns rest s')) = duplicate_index s'"
      and d2: "dry \<longrightarrow> world (fst (related_loop env dry nd ns rest s')) = world s'
                 \<and> list_all quiet evs' \<and> snd (related_loop env dry nd ns rest s') = None"
      by blast
    from e1 e2 have "events (fst (related_loop env dry nd ns rest s')) = events s @ (evs @ evs')"
      by simp
    with None st e1 e2 d1 d2 show ?thesis
      by (intro exI [of _ "evs @ evs'"]) auto
  qed
qed






end
